theory Spec2Isabelle
  imports Main "HOL-Library.Char_ord" "HOL-Library.Multiset"
begin

section \<open>Values of the program\<close>

text \<open>
  A Go \<^verbatim>\<open>string\<close> is a finite sequence of bytes, and so is an Isabelle \<^typ>\<open>string\<close>
  (\<^typ>\<open>char\<close> is an 8-bit character). \<^verbatim>\<open>type ExtendedString string\<close> is a defined type
  over \<^verbatim>\<open>string\<close>; the conversions \<^verbatim>\<open>ExtendedString(s)\<close> and \<^verbatim>\<open>string(es)\<close> are the
  constructor and its inverse. \<^verbatim>\<open>lib.TemplateData\<close> is
  \<^verbatim>\<open>map[string]template.ExtendedString\<close>.
\<close>

datatype ExtendedString = ExtendedString (string_of: string)

type_synonym TemplateData = "string \<rightharpoonup> ExtendedString"

text \<open>A run-time panic of Go: indexing a slice of length \<open>n\<close> at \<open>i\<close> with \<open>n \<le> i\<close>.\<close>

datatype panic = IndexOutOfRange nat nat

section \<open>The marker pattern of \<^verbatim>\<open>getEnvMap\<close>\<close>

text \<open>
  \<^verbatim>\<open>\w\<close> of Go's regular expressions is the ASCII class \<^verbatim>\<open>[0-9A-Za-z_]\<close>; the class
  \<^verbatim>\<open>[\w-]\<close> of the marker pattern adds the hyphen.
\<close>

definition isWord :: "char \<Rightarrow> bool" where
  "isWord c \<longleftrightarrow>
     (CHR ''0'' \<le> c \<and> c \<le> CHR ''9'') \<or> (CHR ''A'' \<le> c \<and> c \<le> CHR ''Z'')
     \<or> (CHR ''a'' \<le> c \<and> c \<le> CHR ''z'') \<or> c = CHR ''_''"

definition isNameChar :: "char \<Rightarrow> bool" where
  "isNameChar c \<longleftrightarrow> isWord c \<or> c = CHR ''-''"

text \<open>
  A match of \<^verbatim>\<open>%(?P<VARNAME>[\w-]+)%\<close> that starts at the head of the text: a percent
  sign, the longest run of name characters, which must not be empty, and a percent sign.
  No shorter run can be followed by a percent sign, since the percent sign is not a name
  character, so this is the only match the leftmost-first search can find at this
  position. The result is the text captured by \<^verbatim>\<open>VARNAME\<close> and the text after the match.
\<close>

definition matchMarker :: "string \<Rightarrow> (string \<times> string) option" where
  "matchMarker s =
     (case s of
        [] \<Rightarrow> None
      | c # cs \<Rightarrow>
          if c = CHR ''%'' then
            (case dropWhile isNameChar cs of
               [] \<Rightarrow> None
             | d # ds \<Rightarrow>
                 if takeWhile isNameChar cs \<noteq> [] \<and> d = CHR ''%''
                 then Some (takeWhile isNameChar cs, ds) else None)
          else None)"

subsection \<open>Expansion of a replacement template\<close>

text \<open>
  \<^verbatim>\<open>Regexp.ReplaceAll\<close> expands its replacement text for every match as
  \<^verbatim>\<open>Regexp.Expand\<close> does: \<^verbatim>\<open>$name\<close> and \<^verbatim>\<open>${name}\<close> stand for a submatch, \<^verbatim>\<open>$$\<close> for a
  dollar sign, and a dollar sign followed by no well-formed name is kept as it is. A name
  is a non-empty run of letters, digits and underscores, as long as possible; a name made
  of digits (below \<open>10^8\<close>, without a leading zero) is the number of a group. The
  templates of this program are ASCII, so only ASCII letters and digits are recognised
  here.
\<close>

definition isLetterDigit :: "char \<Rightarrow> bool" where
  "isLetterDigit c \<longleftrightarrow> isWord c"

definition isDigit :: "char \<Rightarrow> bool" where
  "isDigit c \<longleftrightarrow> CHR ''0'' \<le> c \<and> c \<le> CHR ''9''"

fun parseNum :: "string \<Rightarrow> nat \<Rightarrow> nat option" where
  "parseNum [] num = Some num"
| "parseNum (c # cs) num =
     (if \<not> isDigit c \<or> num \<ge> 100000000 then None
      else parseNum cs (num * 10 + (of_char c - 48)))"

text \<open>
  \<^verbatim>\<open>extract\<close> (here \<open>extractName\<close>) reads the name at the head of the template (the dollar sign already
  removed): the name, its number if it is one, and the rest of the template.
\<close>

definition extractName :: "string \<Rightarrow> (string \<times> nat option \<times> string) option" where
  "extractName str =
     (if str = [] then None
      else
        let brace = (hd str = CHR ''{'');
            str' = (if brace then tl str else str);
            name = takeWhile isLetterDigit str';
            after = dropWhile isLetterDigit str'
        in if name = [] then None
           else if brace \<and> (after = [] \<or> hd after \<noteq> CHR ''}'') then None
           else
             let num = (if hd name = CHR ''0'' \<and> length name > 1 then None
                        else parseNum name 0)
             in Some (name, num, if brace then tl after else after))"

text \<open>
  The submatches of one match are given as the list of the groups in order, each with
  its name (empty for an unnamed group, and for group 0, the whole match) and the text it
  captured; every group of the marker pattern takes part in every match.
\<close>

fun lookupGroup :: "string \<Rightarrow> (string \<times> string) list \<Rightarrow> string" where
  "lookupGroup name [] = []"
| "lookupGroup name ((namei, text) # gs) =
     (if name = namei then text else lookupGroup name gs)"

lemma extractName_shorter:
  "extractName t = Some (name, num, rest) \<Longrightarrow> length rest \<le> length t"
proof -
  have le: "length (dropWhile isLetterDigit xs) \<le> length xs" for xs
    by (rule length_dropWhile_le)
  assume "extractName t = Some (name, num, rest)"
  then have "rest = dropWhile isLetterDigit t \<or> rest = dropWhile isLetterDigit (tl t)
      \<or> rest = tl (dropWhile isLetterDigit t) \<or> rest = tl (dropWhile isLetterDigit (tl t))"
    by (auto simp: extractName_def Let_def split: if_splits)
  moreover have "length (dropWhile isLetterDigit (tl t)) \<le> length t"
    using le [of "tl t"] by simp
  ultimately show ?thesis
    using le [of t] by auto
qed

function expand :: "string \<Rightarrow> (string \<times> string) list \<Rightarrow> string" where
  "expand [] groups = []"
| "expand (c # template) groups =
     (if c \<noteq> CHR ''$'' then c # expand template groups
      else if template \<noteq> [] \<and> hd template = CHR ''$''
        then CHR ''$'' # expand (tl template) groups
      else
        (case extractName template of
           None \<Rightarrow> CHR ''$'' # expand template groups
         | Some (name, num, rest) \<Rightarrow>
             (case num of
                Some n \<Rightarrow> (if n < length groups then snd (groups ! n) else [])
              | None \<Rightarrow> lookupGroup name groups) @ expand rest groups))"
  by pat_completeness auto
termination
  by (relation "measure (\<lambda>(t, g). length t)") (auto dest: extractName_shorter)

lemma expand_marker_template:
  "expand ''${$VARNAME}'' [([], whole), (''VARNAME'', name)] = ''${'' @ name @ ''}''"
  by (simp add: extractName_def isLetterDigit_def isWord_def isDigit_def)

subsection \<open>\<^verbatim>\<open>ReplaceAll\<close> for the marker pattern\<close>

text \<open>
  \<^verbatim>\<open>rexp.ReplaceAll(src, []byte(`${$VARNAME}`))\<close> copies the text, replacing each match of
  the pattern, leftmost first and not overlapping, by the expansion of the template for
  that match. The search goes on after the end of a match; where no match starts, the
  byte is copied.
\<close>

lemma matchMarker_shorter:
  "matchMarker s = Some (name, rest) \<Longrightarrow> length rest < length s"
proof -
  assume m: "matchMarker s = Some (name, rest)"
  then obtain c cs where s: "s = c # cs"
    by (cases s) (auto simp: matchMarker_def)
  from m s have "dropWhile isNameChar cs = CHR ''%'' # rest"
    by (auto simp: matchMarker_def split: if_splits list.splits)
  then have "length rest < length (dropWhile isNameChar cs)"
    by simp
  also have "\<dots> \<le> length cs"
    by (rule length_dropWhile_le)
  finally show ?thesis
    using s by simp
qed

function ReplaceAll :: "string \<Rightarrow> string" where
  "ReplaceAll [] = []"
| "ReplaceAll (c # cs) =
     (case matchMarker (c # cs) of
        Some (name, rest) \<Rightarrow>
          expand ''${$VARNAME}''
            [([], CHR ''%'' # name @ ''%''), (''VARNAME'', name)] @ ReplaceAll rest
      | None \<Rightarrow> c # ReplaceAll cs)"
  by pat_completeness auto
termination
  by (relation "measure length") (auto dest: matchMarker_shorter)

section \<open>The environment and its expansion\<close>

text \<open>
  \<^verbatim>\<open>os.Environ()\<close> returns the environment of the process as a list of assignments
  \<^verbatim>\<open>NAME=value\<close>; this list is the input of the model. \<^verbatim>\<open>os.Getenv(key)\<close> is the value of
  the first assignment to \<open>key\<close>, and the empty text when there is none or when \<open>key\<close> is
  empty (names are compared byte by byte, as on Unix). The program never changes its
  environment, so both read the same snapshot.
\<close>

definition envKey :: "string \<Rightarrow> string" where
  "envKey a = takeWhile (\<lambda>c. c \<noteq> CHR ''='') a"

definition envValue :: "string \<Rightarrow> string" where
  "envValue a = tl (dropWhile (\<lambda>c. c \<noteq> CHR ''='') a)"

fun Getenv :: "string list \<Rightarrow> string \<Rightarrow> string" where
  "Getenv [] key = []"
| "Getenv (a # as) key =
     (if key \<noteq> [] \<and> CHR ''='' \<in> set a \<and> envKey a = key then envValue a
      else Getenv as key)"

subsection \<open>\<^verbatim>\<open>os.Expand\<close>\<close>

definition isShellSpecialVar :: "char \<Rightarrow> bool" where
  "isShellSpecialVar c \<longleftrightarrow> c \<in> set ''*#$@!?-0123456789''"

definition isAlphaNum :: "char \<Rightarrow> bool" where
  "isAlphaNum c \<longleftrightarrow>
     c = CHR ''_'' \<or> (CHR ''0'' \<le> c \<and> c \<le> CHR ''9'')
     \<or> (CHR ''a'' \<le> c \<and> c \<le> CHR ''z'') \<or> (CHR ''A'' \<le> c \<and> c \<le> CHR ''Z'')"

text \<open>
  \<^verbatim>\<open>getShellName\<close> is called on the non-empty text after a dollar sign and returns the
  name that starts it and the number of bytes it takes: \<^verbatim>\<open>{c}\<close> for a special variable
  \<open>c\<close>, \<^verbatim>\<open>{name}\<close> up to the first closing brace (\<^verbatim>\<open>{}\<close> and an unclosed brace are bad
  syntax: no name, and 2 or 1 bytes to eat), one special character, or the longest run
  of letters, digits and underscores (which may be empty: no name and no bytes).
\<close>

definition getShellName :: "string \<Rightarrow> string \<times> nat" where
  "getShellName s =
     (if hd s = CHR ''{'' then
        (if length s > 2 \<and> isShellSpecialVar (s ! 1) \<and> s ! 2 = CHR ''}'' then ([s ! 1], 3)
         else if CHR ''}'' \<in> set (tl s) then
           (let name = takeWhile (\<lambda>c. c \<noteq> CHR ''}'') (tl s)
            in if name = [] then ([], 2) else (name, length name + 2))
         else ([], 1))
      else if isShellSpecialVar (hd s) then ([hd s], 1)
      else (takeWhile isAlphaNum s, length (takeWhile isAlphaNum s)))"

text \<open>
  \<^verbatim>\<open>os.Expand(s, mapping)\<close>: a dollar sign that is not the last byte starts a reference;
  the name found after it is replaced by \<open>mapping name\<close>, bad syntax is eaten, and a dollar
  sign followed by no name is kept. The scan goes on after the bytes of the reference:
  what \<open>mapping\<close> returns is appended to the result and never scanned.
\<close>

function Expand :: "string \<Rightarrow> (string \<Rightarrow> string) \<Rightarrow> string" where
  "Expand [] mapping = []"
| "Expand (c # cs) mapping =
     (if c = CHR ''$'' \<and> cs \<noteq> [] then
        (case getShellName cs of
           (name, w) \<Rightarrow>
             (if name = [] \<and> w > 0 then []
              else if name = [] then [c]
              else mapping name) @ Expand (drop w cs) mapping)
      else c # Expand cs mapping)"
  by pat_completeness auto
termination
  by (relation "measure (\<lambda>(s, m). length s)") auto

definition ExpandEnv :: "string list \<Rightarrow> string \<Rightarrow> string" where
  "ExpandEnv environ s = Expand s (Getenv environ)"

section \<open>\<^verbatim>\<open>getEnvMap\<close>\<close>

text \<open>
  \<^verbatim>\<open>strings.SplitN(envAssignment, "=", 2)\<close> cuts the assignment at its first equals sign,
  and returns the assignment alone when it has none.
\<close>

definition SplitN_eq2 :: "string \<Rightarrow> string list" where
  "SplitN_eq2 s = (if CHR ''='' \<in> set s then [envKey s, envValue s] else [s])"

text \<open>
  The loop of \<^verbatim>\<open>getEnvMap\<close> over \<^verbatim>\<open>os.Environ()\<close>: each value has its markers rewritten by
  \<^verbatim>\<open>ReplaceAll\<close>, is expanded by \<^verbatim>\<open>os.ExpandEnv\<close> and is stored under its name. Reading
  \<^verbatim>\<open>envVar[1]\<close> panics when the assignment has no equals sign.
\<close>

fun getEnvMap_loop ::
  "string list \<Rightarrow> string list \<Rightarrow> TemplateData \<Rightarrow> panic + TemplateData" where
  "getEnvMap_loop environ [] envMap = Inr envMap"
| "getEnvMap_loop environ (envAssignment # rest) envMap =
     (let envVar = SplitN_eq2 envAssignment
      in if length envVar \<le> 1 then Inl (IndexOutOfRange 1 (length envVar))
         else getEnvMap_loop environ rest
                (envMap(envVar ! 0 \<mapsto>
                   ExtendedString (ExpandEnv environ (ReplaceAll (envVar ! 1))))))"

definition getEnvMap :: "string list \<Rightarrow> panic + TemplateData" where
  "getEnvMap environ = getEnvMap_loop environ environ Map.empty"

section \<open>Diagnostics\<close>

text \<open>
  The operations of the template report recoverable failures with
  \<^verbatim>\<open>fmt.Fprintf(os.Stderr, format, args...)\<close> and go on. A model of such an operation
  returns what it wrote to the standard error stream together with its result; a write is
  recorded as the format and its arguments (a text, a byte slice, an error), not as the
  rendered line.
\<close>

datatype error = Error string

datatype fmt_arg = StringArg string | BytesArg string | ErrorArg error

type_synonym stderr = "(string \<times> fmt_arg list) list"

section \<open>UTF-8\<close>

text \<open>
  \<^verbatim>\<open>utf8.DecodeRuneInString\<close>: the first rune of a text and the number of bytes it takes.
  A byte below \<open>0x80\<close> is itself; a leading byte \<open>0xC2..0xF4\<close> announces 2 to 4 bytes,
  the second in a range that depends on the leading byte and the others in \<open>0x80..0xBF\<close>;
  everything else (a wrong leading byte, a text too short, a byte out of its range) is
  the rune \<open>RuneError\<close> of width 1. The empty text gives \<open>RuneError\<close> of width 0.
\<close>

definition RuneError :: nat where
  "RuneError = 0xFFFD"

text \<open>The table \<^verbatim>\<open>first\<close> with \<^verbatim>\<open>acceptRanges\<close>: size and range of the second byte.\<close>

definition leading :: "nat \<Rightarrow> (nat \<times> nat \<times> nat) option" where
  "leading s0 =
     (if 0xC2 \<le> s0 \<and> s0 \<le> 0xDF then Some (2, 0x80, 0xBF)
      else if s0 = 0xE0 then Some (3, 0xA0, 0xBF)
      else if 0xE1 \<le> s0 \<and> s0 \<le> 0xEC then Some (3, 0x80, 0xBF)
      else if s0 = 0xED then Some (3, 0x80, 0x9F)
      else if 0xEE \<le> s0 \<and> s0 \<le> 0xEF then Some (3, 0x80, 0xBF)
      else if s0 = 0xF0 then Some (4, 0x90, 0xBF)
      else if 0xF1 \<le> s0 \<and> s0 \<le> 0xF3 then Some (4, 0x80, 0xBF)
      else if s0 = 0xF4 then Some (4, 0x80, 0x8F)
      else None)"

definition byte :: "string \<Rightarrow> nat \<Rightarrow> nat" where
  "byte s i = of_char (s ! i)"

definition DecodeRuneInString :: "string \<Rightarrow> nat \<times> nat" where
  "DecodeRuneInString s =
     (if s = [] then (RuneError, 0)
      else if byte s 0 < 0x80 then (byte s 0, 1)
      else
        (case leading (byte s 0) of
           None \<Rightarrow> (RuneError, 1)
         | Some (sz, lo, hi) \<Rightarrow>
             if length s < sz then (RuneError, 1)
             else if byte s 1 < lo \<or> hi < byte s 1 then (RuneError, 1)
             else if sz \<le> 2 then (byte s 0 mod 32 * 64 + byte s 1 mod 64, 2)
             else if byte s 2 < 0x80 \<or> 0xBF < byte s 2 then (RuneError, 1)
             else if sz \<le> 3 then
               (byte s 0 mod 16 * 4096 + byte s 1 mod 64 * 64 + byte s 2 mod 64, 3)
             else if byte s 3 < 0x80 \<or> 0xBF < byte s 3 then (RuneError, 1)
             else
               (byte s 0 mod 8 * 262144 + byte s 1 mod 64 * 4096 + byte s 2 mod 64 * 64
                  + byte s 3 mod 64, 4)))"

lemma leading_size: "leading s0 = Some (sz, lo, hi) \<Longrightarrow> sz = 2 \<or> sz = 3 \<or> sz = 4"
  unfolding leading_def by (simp split: if_splits)

lemma DecodeRuneInString_size:
  assumes "s \<noteq> []"
  shows "1 \<le> snd (DecodeRuneInString s) \<and> snd (DecodeRuneInString s) \<le> length s"
proof (cases "leading (byte s 0)")
  case None
  with assms show ?thesis
    by (cases s) (simp_all add: DecodeRuneInString_def)
next
  case (Some p)
  obtain sz lo hi where p: "p = (sz, lo, hi)" by (cases p)
  from leading_size [OF Some [unfolded p]] have "sz = 2 \<or> sz = 3 \<or> sz = 4" .
  with assms Some p show ?thesis
    by (cases s) (auto simp: DecodeRuneInString_def Suc_le_eq)
qed

section \<open>\<^verbatim>\<open>ExtendedString.Split\<close>\<close>

text \<open>
  \<^verbatim>\<open>strings.Index(s, sep)\<close>: the position of the first occurrence of \<open>sep\<close> in \<open>s\<close>, if
  there is one (Go returns \<open>-1\<close> otherwise).
\<close>

fun Index :: "string \<Rightarrow> string \<Rightarrow> nat option" where
  "Index [] sep = (if sep = [] then Some 0 else None)"
| "Index (c # cs) sep =
     (if take (length sep) (c # cs) = sep then Some 0 else map_option Suc (Index cs sep))"

lemma Index_bound: "Index s sep = Some m \<Longrightarrow> m + length sep \<le> length s"
proof (induction s arbitrary: m)
  case Nil
  then show ?case by (simp split: if_splits)
next
  case (Cons c cs)
  show ?case
  proof (cases "take (length sep) (c # cs) = sep")
    case True
    then have "length (take (length sep) (c # cs)) = length sep"
      by simp
    then have "length sep \<le> length (c # cs)"
      by (simp add: min_def split: if_splits)
    with True Cons.prems show ?thesis by simp
  next
    case False
    with Cons.prems obtain m' where "Index cs sep = Some m'" and "m = Suc m'"
      by auto
    with Cons.IH show ?thesis by simp
  qed
qed

text \<open>
  \<^verbatim>\<open>explode\<close> cuts a text into its UTF-8 sequences, one piece for each rune (in the
  current library a byte that starts no valid sequence is a piece of its own).
\<close>

function explode :: "string \<Rightarrow> string list" where
  "explode s =
     (if s = [] then []
      else take (snd (DecodeRuneInString s)) s # explode (drop (snd (DecodeRuneInString s)) s))"
  by pat_completeness auto
termination
proof (relation "measure length")
  show "wf (measure length)" by simp
next
  fix s :: string
  assume "s \<noteq> []"
  then show "(drop (snd (DecodeRuneInString s)) s, s) \<in> measure length"
    using DecodeRuneInString_size [of s] by simp
qed

text \<open>
  \<^verbatim>\<open>strings.Split(s, sep)\<close>: with an empty separator the pieces of \<^verbatim>\<open>explode\<close>; otherwise
  the texts between the occurrences of \<open>sep\<close>, found from the left and not overlapping,
  the rest of the text being the last piece.
\<close>

function splitAt :: "string \<Rightarrow> string \<Rightarrow> string list" where
  "splitAt s sep =
     (if sep = [] then [s]
      else
        (case Index s sep of
           None \<Rightarrow> [s]
         | Some m \<Rightarrow> take m s # splitAt (drop (m + length sep) s) sep))"
  by pat_completeness auto
termination
proof (relation "measure (\<lambda>(s, sep). length s)")
  show "wf (measure (\<lambda>(s, sep). length s))" by simp
next
  fix s sep :: string and m
  assume "sep \<noteq> []" and "Index s sep = Some m"
  then show "((drop (m + length sep) s, sep), (s, sep)) \<in> measure (\<lambda>(s, sep). length s)"
    using Index_bound [of s sep m] by (cases sep) auto
qed

definition strings_Split :: "string \<Rightarrow> string \<Rightarrow> string list" where
  "strings_Split s sep = (if sep = [] then explode s else splitAt s sep)"

text \<open>
  \<^verbatim>\<open>func (es ExtendedString) Split(sep string) []ExtendedString\<close> converts the text, splits
  it and converts every piece back.
\<close>

definition Split :: "ExtendedString \<Rightarrow> string \<Rightarrow> ExtendedString list" where
  "Split es sep = map ExtendedString (strings_Split (string_of es) sep)"

section \<open>\<^verbatim>\<open>ExtendedString.LoadFile\<close>\<close>

text \<open>
  \<^verbatim>\<open>os.ReadFile(name)\<close> returns the bytes read and an error, if any: no bytes when the
  file cannot be opened, the bytes read so far when reading fails (as it does for a
  directory). The file system is a parameter of the model: a function from a path to this
  pair. On an error \<^verbatim>\<open>LoadFile\<close> writes one line to the standard error stream, whose
  arguments are the receiver and the bytes read (\<^verbatim>\<open>fileData\<close>), and returns the empty
  text; it has no other way out: it neither panics nor exits.
\<close>

definition LoadFile ::
  "(string \<Rightarrow> string \<times> error option) \<Rightarrow> ExtendedString \<Rightarrow> stderr \<times> ExtendedString" where
  "LoadFile ReadFile es =
     (case ReadFile (string_of es) of
        (fileData, Some err) \<Rightarrow>
          ([(''Error reading file %s: %v'', [StringArg (string_of es), BytesArg fileData])],
           ExtendedString [])
      | (fileData, None) \<Rightarrow> ([], ExtendedString fileData))"

section \<open>\<^verbatim>\<open>ExtendedString.ToJSON\<close>\<close>

text \<open>
  \<^verbatim>\<open>json.Marshal\<close> encodes a value of a string type as a JSON string, with the escaping of
  HTML on: the text between double quotes, where a byte below \<open>0x80\<close> is copied when it
  is in \<^verbatim>\<open>htmlSafeSet\<close> (printable, and none of the double quote, the backslash, \<^verbatim>\<open><\<close>,
  \<^verbatim>\<open>>\<close> and \<^verbatim>\<open>&\<close>) and escaped otherwise: a backslash before the double quote and the
  backslash, the short escapes for backspace and form feed (since Go 1.22; \<^verbatim>\<open>\u0008\<close> and
  \<^verbatim>\<open>\u000c\<close> before), new line, carriage return and tab, and \<^verbatim>\<open>\u00XX\<close> with lower-case hexadecimal digits for the rest. A byte that starts no
  valid UTF-8 sequence becomes \<^verbatim>\<open>\ufffd\<close>, the runes U+2028 and U+2029 are escaped, and any
  other rune is copied. Encoding a string never fails.
\<close>

definition quote :: char where
  "quote = CHR 0x22"

definition backslash :: char where
  "backslash = CHR 0x5C"

definition hex :: "nat \<Rightarrow> char" where
  "hex n = ''0123456789abcdef'' ! n"

definition htmlSafeSet :: "char \<Rightarrow> bool" where
  "htmlSafeSet c \<longleftrightarrow>
     (0x20::nat) \<le> of_char c \<and> (of_char c :: nat) < 0x80 \<and> c \<noteq> quote \<and> c \<noteq> backslash
     \<and> c \<noteq> CHR ''<'' \<and> c \<noteq> CHR ''>'' \<and> c \<noteq> CHR ''&''"

definition escapeByte :: "char \<Rightarrow> string" where
  "escapeByte b =
     (if b = backslash \<or> b = quote then [backslash, b]
      else if b = CHR 0x08 then [backslash, CHR ''b'']
      else if b = CHR 0x0C then [backslash, CHR ''f'']
      else if b = CHR 0x0A then [backslash, CHR ''n'']
      else if b = CHR 0x0D then [backslash, CHR ''r'']
      else if b = CHR 0x09 then [backslash, CHR ''t'']
      else [backslash, CHR ''u'', CHR ''0'', CHR ''0'',
            hex (of_char b div 16), hex (of_char b mod 16)])"

text \<open>The loop of \<^verbatim>\<open>appendString\<close>: the text between the quotes.\<close>

lemma DecodeRuneInString_width:
  "(c, w) = DecodeRuneInString (b # rest) \<Longrightarrow> length (drop w (b # rest)) < length (b # rest)"
proof -
  assume "(c, w) = DecodeRuneInString (b # rest)"
  then have "w = snd (DecodeRuneInString (b # rest))"
    by (metis snd_conv)
  then have "1 \<le> w"
    using DecodeRuneInString_size [of "b # rest"] by simp
  then show ?thesis by simp
qed

function appendString_body :: "string \<Rightarrow> string" where
  "appendString_body [] = []"
| "appendString_body (b # rest) =
     (if (of_char b :: nat) < 0x80 then
        (if htmlSafeSet b then [b] else escapeByte b) @ appendString_body rest
      else
        (case DecodeRuneInString (b # rest) of
           (c, w) \<Rightarrow>
             if c = RuneError \<and> w = 1 then
               backslash # ''ufffd'' @ appendString_body (drop w (b # rest))
             else if c = 0x2028 \<or> c = 0x2029 then
               backslash # ''u202'' @ [hex (c mod 16)]
                 @ appendString_body (drop w (b # rest))
             else take w (b # rest) @ appendString_body (drop w (b # rest))))"
  by pat_completeness auto
termination
proof (relation "measure length", goal_cases)
  case 1
  show ?case by simp
next
  case (2 b rest)
  show ?case by simp
next
  case (3 b rest c w)
  then show ?case
    using DecodeRuneInString_width [of c w b rest] by simp
next
  case (4 b rest c w)
  then show ?case
    using DecodeRuneInString_width [of c w b rest] by simp
next
  case (5 b rest c w)
  then show ?case
    using DecodeRuneInString_width [of c w b rest] by simp
qed

definition Marshal :: "ExtendedString \<Rightarrow> error + string" where
  "Marshal es = Inr (quote # appendString_body (string_of es) @ [quote])"

definition ToJSON :: "ExtendedString \<Rightarrow> stderr \<times> ExtendedString" where
  "ToJSON es =
     (case Marshal es of
        Inl err \<Rightarrow>
          ([(''Error converting to json %s: %v'', [StringArg (string_of es), ErrorArg err])],
           ExtendedString [])
      | Inr data \<Rightarrow> ([], ExtendedString data))"

section \<open>\<^verbatim>\<open>TemplateData.Filter\<close>\<close>

text \<open>
  The regular expressions of \<^verbatim>\<open>Filter\<close> come from the caller, so the library is a parameter
  of the model: \<open>Compile\<close> for \<^verbatim>\<open>regexp.Compile\<close>, which returns an error or a compiled
  expression, and \<open>MatchString\<close> for \<^verbatim>\<open>(*Regexp).MatchString\<close>. On an error \<^verbatim>\<open>Filter\<close> writes one
  line to the standard error stream and returns an empty map; otherwise the new map \<open>rv\<close>
  receives every entry of \<open>t\<close> whose key \<open>MatchString\<close> accepts. The keys of a map are
  distinct, so the order of the \<^verbatim>\<open>range\<close> loop does not matter: \<open>rv\<close> is \<open>t\<close> restricted to
  the accepted keys.
\<close>

definition Filter ::
  "(string \<Rightarrow> error + 're) \<Rightarrow> ('re \<Rightarrow> string \<Rightarrow> bool) \<Rightarrow> TemplateData \<Rightarrow> string
   \<Rightarrow> stderr \<times> TemplateData" where
  "Filter Compile MatchString t pattern =
     (case Compile pattern of
        Inl err \<Rightarrow>
          ([(''Invalid pattern: %s - error: %v'', [StringArg pattern, ErrorArg err])],
           Map.empty)
      | Inr exp \<Rightarrow> ([], t |` {k. MatchString exp k}))"

section \<open>A fragment of Go's regular expressions\<close>

text \<open>
  To run \<^verbatim>\<open>Filter\<close> on examples, a part of the \<^verbatim>\<open>regexp\<close> package is modelled: patterns
  written with ASCII literals, \<^verbatim>\<open>.\<close>, \<^verbatim>\<open>^\<close>, \<^verbatim>\<open>$\<close>, the classes \<^verbatim>\<open>\d \D \w \W \s \S\<close>, escaped
  punctuation, groups, \<^verbatim>\<open>|\<close> and the repetitions \<^verbatim>\<open>* + ?\<close> (greedy or not, which makes no
  difference to whether a text matches). Matching works on the runes of the text, as the
  package does.
\<close>

datatype perl_class = ClassD | ClassW | ClassS

datatype regex =
    EmptyMatch
  | NoMatch
  | Literal nat
  | AnyCharNotNL
  | CharClass perl_class bool
  | BeginText
  | EndText
  | Concat regex regex
  | Alternate regex regex
  | Star regex
  | Plus regex
  | Quest regex

text \<open>The runes of a text, in order (\<open>RuneError\<close> for a byte that starts no valid sequence).\<close>

function runes :: "string \<Rightarrow> nat list" where
  "runes s =
     (if s = [] then []
      else fst (DecodeRuneInString s) # runes (drop (snd (DecodeRuneInString s)) s))"
  by pat_completeness auto
termination
proof (relation "measure length")
  show "wf (measure length)" by simp
next
  fix s :: string
  assume "s \<noteq> []"
  then show "(drop (snd (DecodeRuneInString s)) s, s) \<in> measure length"
    using DecodeRuneInString_size [of s] by simp
qed

text \<open>\<^verbatim>\<open>\d\<close> is \<^verbatim>\<open>[0-9]\<close>, \<^verbatim>\<open>\w\<close> is \<^verbatim>\<open>[0-9A-Za-z_]\<close>, \<^verbatim>\<open>\s\<close> is \<^verbatim>\<open>[\t\n\f\r ]\<close>.\<close>

fun inClass :: "perl_class \<Rightarrow> nat \<Rightarrow> bool" where
  "inClass ClassD r \<longleftrightarrow> 48 \<le> r \<and> r \<le> 57"
| "inClass ClassW r \<longleftrightarrow>
     (48 \<le> r \<and> r \<le> 57) \<or> (65 \<le> r \<and> r \<le> 90) \<or> (97 \<le> r \<and> r \<le> 122) \<or> r = 95"
| "inClass ClassS r \<longleftrightarrow> r = 9 \<or> r = 10 \<or> r = 12 \<or> r = 13 \<or> r = 32"

text \<open>
  Whether an expression matches the empty text at a position, which is at the beginning
  of the text or not, and at its end or not.
\<close>

fun nullable :: "bool \<Rightarrow> bool \<Rightarrow> regex \<Rightarrow> bool" where
  "nullable atBegin atEnd EmptyMatch = True"
| "nullable atBegin atEnd NoMatch = False"
| "nullable atBegin atEnd (Literal c) = False"
| "nullable atBegin atEnd AnyCharNotNL = False"
| "nullable atBegin atEnd (CharClass cls positive) = False"
| "nullable atBegin atEnd BeginText = atBegin"
| "nullable atBegin atEnd EndText = atEnd"
| "nullable atBegin atEnd (Concat r1 r2) = (nullable atBegin atEnd r1 \<and> nullable atBegin atEnd r2)"
| "nullable atBegin atEnd (Alternate r1 r2) = (nullable atBegin atEnd r1 \<or> nullable atBegin atEnd r2)"
| "nullable atBegin atEnd (Star r) = True"
| "nullable atBegin atEnd (Plus r) = nullable atBegin atEnd r"
| "nullable atBegin atEnd (Quest r) = True"

text \<open>
  What is left of an expression after it has read the rune \<open>c\<close> at a position (which is
  not the end of the text, since \<open>c\<close> is there).
\<close>

fun deriv :: "bool \<Rightarrow> nat \<Rightarrow> regex \<Rightarrow> regex" where
  "deriv atBegin c EmptyMatch = NoMatch"
| "deriv atBegin c NoMatch = NoMatch"
| "deriv atBegin c (Literal d) = (if c = d then EmptyMatch else NoMatch)"
| "deriv atBegin c AnyCharNotNL = (if c \<noteq> 10 then EmptyMatch else NoMatch)"
| "deriv atBegin c (CharClass cls positive) =
     (if inClass cls c = positive then EmptyMatch else NoMatch)"
| "deriv atBegin c BeginText = NoMatch"
| "deriv atBegin c EndText = NoMatch"
| "deriv atBegin c (Concat r1 r2) =
     (if nullable atBegin False r1
      then Alternate (Concat (deriv atBegin c r1) r2) (deriv atBegin c r2)
      else Concat (deriv atBegin c r1) r2)"
| "deriv atBegin c (Alternate r1 r2) = Alternate (deriv atBegin c r1) (deriv atBegin c r2)"
| "deriv atBegin c (Star r) = Concat (deriv atBegin c r) (Star r)"
| "deriv atBegin c (Plus r) = Concat (deriv atBegin c r) (Star r)"
| "deriv atBegin c (Quest r) = deriv atBegin c r"

text \<open>
  An expression matches a span of the text (a run of runes), given whether the span
  starts at the beginning of the text and whether it ends at the end of the text: the
  anchors look at these, and at nothing else outside the span.
\<close>

fun matchesSpan :: "regex \<Rightarrow> bool \<Rightarrow> bool \<Rightarrow> nat list \<Rightarrow> bool" where
  "matchesSpan r atBegin atEnd [] = nullable atBegin atEnd r"
| "matchesSpan r atBegin atEnd (c # cs) = matchesSpan (deriv atBegin c r) False atEnd cs"

text \<open>
  \<^verbatim>\<open>MatchString\<close> reports whether the text contains any match of the expression. The
  search tries every position of the text in turn: the expression matches a prefix of
  what is left of the text, or it matches somewhere later.
\<close>

fun matchesPrefix :: "regex \<Rightarrow> bool \<Rightarrow> nat list \<Rightarrow> bool" where
  "matchesPrefix r atBegin [] = nullable atBegin True r"
| "matchesPrefix r atBegin (c # cs) =
     (nullable atBegin False r \<or> matchesPrefix (deriv atBegin c r) False cs)"

fun matchesSomewhere :: "regex \<Rightarrow> bool \<Rightarrow> nat list \<Rightarrow> bool" where
  "matchesSomewhere r atBegin [] = matchesPrefix r atBegin []"
| "matchesSomewhere r atBegin (c # cs) =
     (matchesPrefix r atBegin (c # cs) \<or> matchesSomewhere r False cs)"

definition regexp_MatchString :: "regex \<Rightarrow> string \<Rightarrow> bool" where
  "regexp_MatchString re s = matchesSomewhere re True (runes s)"

subsection \<open>Parsing a pattern\<close>

text \<open>
  The parser reads the pattern from left to right with a stack of open groups; each holds
  the alternatives closed so far and the factors of the current one, last first. The
  flag \<open>lastRepeat\<close> tells that the last thing read was a repetition. The errors are
  those of the package, given by their codes: a parenthesis without its partner, a
  repetition with nothing to repeat or right after another one, a backslash at the end.
  A construct outside the fragment ends the parse with \<open>NotModelled\<close>.
\<close>

datatype parsed = Parsed regex | ParseError string | NotModelled

fun concatOf :: "regex list \<Rightarrow> regex" where
  "concatOf [] = EmptyMatch"
| "concatOf [r] = r"
| "concatOf (r # rs) = Concat (concatOf rs) r"

fun alternateOf :: "regex list \<Rightarrow> regex" where
  "alternateOf [] = NoMatch"
| "alternateOf [r] = r"
| "alternateOf (r # rs) = Alternate (alternateOf rs) r"

definition isMeta :: "char \<Rightarrow> bool" where
  "isMeta c \<longleftrightarrow> c \<in> set ''()|^$.*+?[{'' \<or> c = backslash"

definition repetition :: "char \<Rightarrow> regex \<Rightarrow> regex" where
  "repetition c r = (if c = CHR ''*'' then Star r else if c = CHR ''+'' then Plus r else Quest r)"

definition escaped :: "char \<Rightarrow> regex option" where
  "escaped d =
     (if d = CHR ''d'' then Some (CharClass ClassD True)
      else if d = CHR ''D'' then Some (CharClass ClassD False)
      else if d = CHR ''w'' then Some (CharClass ClassW True)
      else if d = CHR ''W'' then Some (CharClass ClassW False)
      else if d = CHR ''s'' then Some (CharClass ClassS True)
      else if d = CHR ''S'' then Some (CharClass ClassS False)
      else if (of_char d :: nat) < 0x80 \<and> \<not> isWord d \<or> d = CHR ''_'' then
        Some (Literal (of_char d))
      else None)"

datatype step = Continue "(regex list \<times> regex list) list" bool bool | Stop parsed

text \<open>
  One step of the parser at the character \<open>c\<close>, followed by \<open>t\<close>: the new stack, whether
  \<open>c\<close> was a repetition, and whether the step also took the next character (the second
  character of an escape, the question mark of a repetition that is not greedy); or the
  end of the parse.
\<close>

definition parseStep ::
  "char \<Rightarrow> string \<Rightarrow> (regex list \<times> regex list) list \<Rightarrow> bool \<Rightarrow> step" where
  "parseStep c t stack lastRepeat =
     (case stack of
        [] \<Rightarrow> Stop NotModelled
      | (alts, cur) # outer \<Rightarrow>
          if c = CHR ''('' then
            (if t \<noteq> [] \<and> hd t = CHR ''?'' then Stop NotModelled
             else Continue (([], []) # stack) False False)
          else if c = CHR ''|'' then Continue ((concatOf cur # alts, []) # outer) False False
          else if c = CHR '')'' then
            (case outer of
               [] \<Rightarrow> Stop (ParseError ''unexpected )'')
             | (alts', cur') # outer' \<Rightarrow>
                 Continue ((alts', alternateOf (concatOf cur # alts) # cur') # outer') False False)
          else if c = CHR ''^'' then Continue ((alts, BeginText # cur) # outer) False False
          else if c = CHR ''$'' then Continue ((alts, EndText # cur) # outer) False False
          else if c = CHR ''.'' then Continue ((alts, AnyCharNotNL # cur) # outer) False False
          else if c = CHR ''*'' \<or> c = CHR ''+'' \<or> c = CHR ''?'' then
            (case cur of
               [] \<Rightarrow> Stop (ParseError ''missing argument to repetition operator'')
             | r # cur' \<Rightarrow>
                 if lastRepeat then Stop (ParseError ''invalid nested repetition operator'')
                 else Continue ((alts, repetition c r # cur') # outer) True
                        (t \<noteq> [] \<and> hd t = CHR ''?''))
          else if c = backslash then
            (case t of
               [] \<Rightarrow> Stop (ParseError ''trailing backslash at end of expression'')
             | d # t' \<Rightarrow>
                 (case escaped d of
                    Some r \<Rightarrow> Continue ((alts, r # cur) # outer) False True
                  | None \<Rightarrow> Stop NotModelled))
          else if c = CHR ''['' \<or> c = CHR ''{'' \<or> \<not> (of_char c :: nat) < 0x80 then
            Stop NotModelled
          else Continue ((alts, Literal (of_char c) # cur) # outer) False False)"

fun parse :: "string \<Rightarrow> (regex list \<times> regex list) list \<Rightarrow> bool \<Rightarrow> bool \<Rightarrow> parsed" where
  "parse [] stack lastRepeat skip =
     (case stack of
        [(alts, cur)] \<Rightarrow> Parsed (alternateOf (concatOf cur # alts))
      | _ \<Rightarrow> ParseError ''missing closing )'')"
| "parse (c # t) stack lastRepeat skip =
     (if skip then parse t stack lastRepeat False
      else
        (case parseStep c t stack lastRepeat of
           Continue stack' lastRepeat' skip' \<Rightarrow> parse t stack' lastRepeat' skip'
         | Stop result \<Rightarrow> result))"

text \<open>
  \<^verbatim>\<open>regexp.Compile\<close> on the fragment: the expression, or the error of the package. For a
  pattern outside the fragment the model gives no answer: what the package returns for
  it, an expression or an error, is left unspecified.
\<close>

definition regexp_Compile :: "string \<Rightarrow> error + regex" where
  "regexp_Compile expr =
     (case parse expr [([], [])] False False of
        Parsed re \<Rightarrow> Inr re
      | ParseError code \<Rightarrow> Inl (Error code)
      | NotModelled \<Rightarrow> undefined)"

section \<open>Vocabulary of the properties of \<^verbatim>\<open>getEnvMap\<close>\<close>

text \<open>
  The value \<^verbatim>\<open>getEnvMap\<close> stores for a raw value \<open>v\<close>: the expression
  \<^verbatim>\<open>os.ExpandEnv(string(rexp.ReplaceAll([]byte(v), ...)))\<close> of its loop.
\<close>

definition lateExpand :: "string list \<Rightarrow> string \<Rightarrow> string" where
  "lateExpand environ v = ExpandEnv environ (ReplaceAll v)"

text \<open>
  The assignment \<^verbatim>\<open>name=v\<close> of the environment, and the entry of the context for a name
  (none when \<^verbatim>\<open>getEnvMap\<close> panics).
\<close>

definition assignment :: "string \<Rightarrow> string \<Rightarrow> string" where
  "assignment name v = name @ ''='' @ v"

definition contextOf :: "panic + TemplateData \<Rightarrow> string \<Rightarrow> ExtendedString option" where
  "contextOf r key = (case r of Inl p \<Rightarrow> None | Inr envMap \<Rightarrow> envMap key)"

text \<open>
  What \<^verbatim>\<open>os.Environ()\<close> returns for an environment of variables: every entry is an
  assignment (it has an equals sign), and no name is assigned twice (the Go runtime keeps
  the first assignment of a name and drops the others).
\<close>

definition wellFormedEnviron :: "string list \<Rightarrow> bool" where
  "wellFormedEnviron environ \<longleftrightarrow>
     list_all (\<lambda>a. CHR ''='' \<in> set a) environ \<and> distinct (map envKey environ)"

text \<open>
  A name the marker pattern accepts, and the marker \<^verbatim>\<open>%NAME%\<close> for it.
\<close>

definition isName :: "string \<Rightarrow> bool" where
  "isName name \<longleftrightarrow> name \<noteq> [] \<and> list_all isNameChar name"

definition marker :: "string \<Rightarrow> string" where
  "marker name = ''%'' @ name @ ''%''"

text \<open>
  The marker search leaves a text with a marker open at its end when, having replaced
  the markers of the text, it is left at a percent sign followed by one or more name
  characters up to the end of the text: a percent sign written next closes that marker,
  so a marker written right after such a text is not found. (A percent sign that closes
  a marker of the text opens nothing.)
\<close>

function markerOpenAtEnd :: "string \<Rightarrow> bool" where
  "markerOpenAtEnd [] = False"
| "markerOpenAtEnd (c # cs) =
     (case matchMarker (c # cs) of
        Some (name, rest) \<Rightarrow> markerOpenAtEnd rest
      | None \<Rightarrow> (c = CHR ''%'' \<and> cs \<noteq> [] \<and> list_all isNameChar cs) \<or> markerOpenAtEnd cs)"
  by pat_completeness auto
termination
  by (relation "measure length") (auto dest: matchMarker_shorter)

text \<open>
  \<^verbatim>\<open>os.Expand\<close> leaves a text with a reference open at its end when its scan of the text
  ends at a dollar sign that is the last byte, or inside \<^verbatim>\<open>${\<close> with no closing brace in
  the text: what is written next becomes part of that reference. (A dollar sign inside a
  reference, and the bytes of a reference that is complete, open nothing.)
\<close>

fun leavesReferenceOpen :: "string \<Rightarrow> bool" where
  "leavesReferenceOpen [] = False"
| "leavesReferenceOpen (c # cs) =
     (if c = CHR ''$'' then
        cs = [] \<or> (hd cs = CHR ''{'' \<and> CHR ''}'' \<notin> set (tl cs))
        \<or> leavesReferenceOpen (drop (snd (getShellName cs)) cs)
      else leavesReferenceOpen cs)"

text \<open>
  A text contains a marker when the pattern matches at one of its positions, that is,
  when it is some text, a marker for a name, and some text (\<open>containsMarker_iff\<close>).
\<close>

definition containsMarker :: "string \<Rightarrow> bool" where
  "containsMarker s \<longleftrightarrow> list_ex (\<lambda>i. matchMarker (drop i s) \<noteq> None) [0..<length s]"

text \<open>
  A byte after a dollar sign starts a reference of \<^verbatim>\<open>os.Expand\<close> when it is a brace, a
  special character or a letter, digit or underscore. The dollar signs of a text are
  inert when each of them is the last byte or is followed by a byte that starts no
  reference.
\<close>

definition startsReference :: "char \<Rightarrow> bool" where
  "startsReference d \<longleftrightarrow> d = CHR ''{'' \<or> isShellSpecialVar d \<or> isAlphaNum d"

fun inertDollars :: "string \<Rightarrow> bool" where
  "inertDollars [] = True"
| "inertDollars (c # cs) =
     ((if c = CHR ''$'' \<and> cs \<noteq> [] then \<not> startsReference (hd cs) else True) \<and> inertDollars cs)"

text \<open>
  The entry the loop of \<^verbatim>\<open>getEnvMap\<close> stores for one assignment.
\<close>

definition entryOf :: "string list \<Rightarrow> string \<Rightarrow> string \<times> ExtendedString" where
  "entryOf environ a = (envKey a, ExtendedString (lateExpand environ (envValue a)))"

section \<open>Vocabulary of the properties of the template operations\<close>

text \<open>
  A separator occurs in a text when the text is some text, the separator, and some text.
\<close>

definition occursIn :: "string \<Rightarrow> string \<Rightarrow> bool" where
  "occursIn sep s \<longleftrightarrow> (\<exists>pre post. s = pre @ sep @ post)"

text \<open>
  The escape sequences of \<^verbatim>\<open>&\<close>, \<^verbatim>\<open><\<close> and \<^verbatim>\<open>>\<close> in the output of \<^verbatim>\<open>ToJSON\<close>.
\<close>

definition htmlEscape :: "char \<Rightarrow> string" where
  "htmlEscape c =
     (if c = CHR ''&'' then backslash # ''u0026''
      else if c = CHR ''<'' then backslash # ''u003c''
      else backslash # ''u003e'')"

text \<open>
  The escape sequences of the 32 control characters in a JSON string, as \<^verbatim>\<open>json.Marshal\<close>
  writes them: the short escapes of backspace, tab, new line, form feed and carriage
  return, and \<^verbatim>\<open>\u00XX\<close> for every other one.
\<close>

definition controlEscape :: "char \<Rightarrow> string" where
  "controlEscape c = backslash #
     [''u0000'', ''u0001'', ''u0002'', ''u0003'', ''u0004'', ''u0005'', ''u0006'', ''u0007'',
      ''b'', ''t'', ''n'', ''u000b'', ''f'', ''r'', ''u000e'', ''u000f'',
      ''u0010'', ''u0011'', ''u0012'', ''u0013'', ''u0014'', ''u0015'', ''u0016'', ''u0017'',
      ''u0018'', ''u0019'', ''u001a'', ''u001b'', ''u001c'', ''u001d'', ''u001e'', ''u001f'']
     ! of_char c"

text \<open>
  A file system for the examples: one file, one directory, nothing else.
\<close>

definition exampleFiles :: "string \<Rightarrow> string \<times> error option" where
  "exampleFiles name =
     (if name = ''a.txt'' then (''A'', None)
      else if name = ''/etc'' then ([], Some (Error ''read /etc: is a directory''))
      else ([], Some (Error ''open: no such file or directory'')))"

text \<open>
  An expression matches the full text of a key when it matches the span of all its runes.
  A key contains a match of an expression when its runes are some runes, a span that the
  expression matches, and some runes; the span may be a proper part of the key.
\<close>

definition matchesFullText :: "regex \<Rightarrow> string \<Rightarrow> bool" where
  "matchesFullText re s = matchesSpan re True True (runes s)"


text \<open>
  The expression a pattern of plain characters compiles to; the pattern
  \<^verbatim>\<open>^VAULT_SECRET_\d+$\<close> of the sample template and what it compiles to; the same
  pattern without its prefix and its anchors, \<^verbatim>\<open>SECRET_\d+\<close>.
\<close>

definition literals :: "string \<Rightarrow> regex list" where
  "literals s = rev (map (\<lambda>c. Literal (of_char c)) s)"

definition vaultPattern :: string where
  "vaultPattern = ''^VAULT_SECRET_'' @ [backslash] @ ''d+$''"

definition vaultRegex :: regex where
  "vaultRegex =
     concatOf (EndText # Plus (CharClass ClassD True) # literals ''VAULT_SECRET_'' @ [BeginText])"



section \<open>Lemmas on the marker search and the expansion\<close>

lemma percent_not_name [simp]: "\<not> isNameChar CHR ''%''"
  by (simp add: isNameChar_def isWord_def)

lemma brace_not_name [simp]: "\<not> isNameChar CHR ''}''"
  by (simp add: isNameChar_def isWord_def)

lemma matchMarker_marker:
  assumes "isName name"
  shows "matchMarker (marker name @ post) = Some (name, post)"
proof -
  from assms have all: "\<And>c. c \<in> set name \<Longrightarrow> isNameChar c" and ne: "name \<noteq> []"
    by (auto simp: isName_def list_all_iff)
  have tw: "takeWhile isNameChar (name @ CHR ''%'' # post) = name"
    using takeWhile_append2 [of name isNameChar "CHR ''%'' # post"] all by simp
  have dw: "dropWhile isNameChar (name @ CHR ''%'' # post) = CHR ''%'' # post"
    using dropWhile_append2 [of name isNameChar "CHR ''%'' # post"] all by simp
  show ?thesis
    using tw dw ne by (simp add: matchMarker_def marker_def)
qed

lemma matchMarker_SomeD:
  assumes "matchMarker s = Some (name, rest)"
  shows "s = marker name @ rest \<and> isName name"
proof -
  from assms obtain cs where s: "s = CHR ''%'' # cs"
    by (cases s) (auto simp: matchMarker_def split: if_splits)
  from assms s have dw: "dropWhile isNameChar cs = CHR ''%'' # rest"
    and tw: "takeWhile isNameChar cs = name" and ne: "name \<noteq> []"
    by (auto simp: matchMarker_def split: if_splits list.splits)
  have "cs = takeWhile isNameChar cs @ dropWhile isNameChar cs"
    by simp
  then have "cs = name @ CHR ''%'' # rest"
    using dw tw by simp
  moreover have "list_all isNameChar name"
    using tw by (metis list_all_iff set_takeWhileD)
  ultimately show ?thesis
    using s ne by (simp add: marker_def isName_def)
qed

lemma ReplaceAll_marker:
  "isName name \<Longrightarrow> ReplaceAll (marker name @ post) = ''${'' @ name @ ''}'' @ ReplaceAll post"
proof -
  assume n: "isName name"
  have "marker name @ post = CHR ''%'' # (name @ ''%'' @ post)"
    by (simp add: marker_def)
  then show ?thesis
    using matchMarker_marker [OF n, of post] expand_marker_template
    by (simp del: expand.simps)
qed

lemma matchMarker_None_append:
  assumes none: "matchMarker (c # cs) = None"
    and nopen: "\<not> (c = CHR ''%'' \<and> cs \<noteq> [] \<and> list_all isNameChar cs)"
  shows "matchMarker ((c # cs) @ CHR ''%'' # rest) = None"
proof (cases "c = CHR ''%''")
  case False
  then show ?thesis by (simp add: matchMarker_def)
next
  case True
  show ?thesis
  proof (cases "dropWhile isNameChar cs")
    case Nil
    then have all: "\<forall>x\<in>set cs. isNameChar x"
      by (simp add: dropWhile_eq_Nil_conv)
    with nopen True have "cs = []"
      by (auto simp: list_all_iff)
    with True show ?thesis
      by (simp add: matchMarker_def)
  next
    case (Cons d ds)
    then obtain x where x: "x \<in> set cs" "\<not> isNameChar x"
      by (metis dropWhile_eq_Nil_conv list.distinct(1))
    have tw: "takeWhile isNameChar (cs @ CHR ''%'' # rest) = takeWhile isNameChar cs"
      using takeWhile_append1 [of x _ isNameChar] x by simp
    have dw: "dropWhile isNameChar (cs @ CHR ''%'' # rest) = d # ds @ CHR ''%'' # rest"
      using dropWhile_append1 [of x cs isNameChar "CHR ''%'' # rest"] x Cons by simp
    from none True Cons
    have "\<not> (takeWhile isNameChar cs \<noteq> [] \<and> d = CHR ''%'')"
      by (auto simp: matchMarker_def split: if_splits)
    then show ?thesis
      using True tw dw by (simp add: matchMarker_def)
  qed
qed

lemma ReplaceAll_append_percent:
  "\<not> markerOpenAtEnd pre \<Longrightarrow>
   ReplaceAll (pre @ CHR ''%'' # rest) = ReplaceAll pre @ ReplaceAll (CHR ''%'' # rest)"
proof (induction pre rule: ReplaceAll.induct)
  case 1
  show ?case by simp
next
  case (2 c cs)
  show ?case
  proof (cases "matchMarker (c # cs)")
    case None
    from "2.prems" None
    have nopen: "\<not> (c = CHR ''%'' \<and> cs \<noteq> [] \<and> list_all isNameChar cs)"
      and rest: "\<not> markerOpenAtEnd cs"
      by simp_all
    have m: "matchMarker ((c # cs) @ CHR ''%'' # rest) = None"
      by (rule matchMarker_None_append [OF None nopen])
    have "ReplaceAll (cs @ CHR ''%'' # rest) = ReplaceAll cs @ ReplaceAll (CHR ''%'' # rest)"
      by (rule "2.IH"(1) [OF None rest])
    then show ?thesis
      using None m by simp
  next
    case (Some p)
    obtain name tl where p: "p = (name, tl)" by (cases p)
    from matchMarker_SomeD [OF Some [unfolded p]]
    have eq: "c # cs = marker name @ tl" and n: "isName name" by simp_all
    have "\<not> markerOpenAtEnd tl"
      using "2.prems" Some p by simp
    then have ih: "ReplaceAll (tl @ CHR ''%'' # rest) = ReplaceAll tl @ ReplaceAll (CHR ''%'' # rest)"
      using "2.IH"(2) [OF Some [unfolded p] refl] by simp
    have "ReplaceAll ((c # cs) @ CHR ''%'' # rest) = ReplaceAll (marker name @ (tl @ CHR ''%'' # rest))"
      using eq by simp
    also have "\<dots> = ''${'' @ name @ ''}'' @ ReplaceAll (tl @ CHR ''%'' # rest)"
      by (rule ReplaceAll_marker [OF n])
    also have "\<dots> = (''${'' @ name @ ''}'' @ ReplaceAll tl) @ ReplaceAll (CHR ''%'' # rest)"
      using ih by simp
    also have "''${'' @ name @ ''}'' @ ReplaceAll tl = ReplaceAll (c # cs)"
      using ReplaceAll_marker [OF n, of tl] eq by simp
    finally show ?thesis .
  qed
qed

lemma containsMarker_iff:
  "containsMarker s \<longleftrightarrow> (\<exists>pre name post. isName name \<and> s = pre @ marker name @ post)"
proof
  assume "containsMarker s"
  then obtain i name rest where "matchMarker (drop i s) = Some (name, rest)"
    by (auto simp: containsMarker_def list_ex_iff)
  from matchMarker_SomeD [OF this] have "drop i s = marker name @ rest" and n: "isName name"
    by simp_all
  then have "s = take i s @ marker name @ rest"
    by (metis append_take_drop_id)
  with n show "\<exists>pre name post. isName name \<and> s = pre @ marker name @ post"
    by blast
next
  assume "\<exists>pre name post. isName name \<and> s = pre @ marker name @ post"
  then obtain pre name post where n: "isName name" and s: "s = pre @ marker name @ post"
    by blast
  have "matchMarker (drop (length pre) s) = Some (name, post)"
    using matchMarker_marker [OF n, of post] s by simp
  moreover have "length pre < length s"
    using s by (simp add: marker_def)
  ultimately have "\<exists>i\<in>set [0..<length s]. matchMarker (drop i s) \<noteq> None"
    by (intro bexI [of _ "length pre"]) simp_all
  then show "containsMarker s"
    by (simp only: containsMarker_def list_ex_iff)
qed

lemma ReplaceAll_no_marker: "\<not> containsMarker s \<Longrightarrow> ReplaceAll s = s"
proof (induction s rule: ReplaceAll.induct)
  case 1
  show ?case by simp
next
  case (2 c cs)
  have none: "matchMarker (c # cs) = None"
  proof (rule ccontr)
    assume "matchMarker (c # cs) \<noteq> None"
    then have "matchMarker (drop 0 (c # cs)) \<noteq> None" by simp
    then have "containsMarker (c # cs)"
      unfolding containsMarker_def list_ex_iff by (intro bexI [of _ 0]) simp_all
    with "2.prems" show False by simp
  qed
  have "\<not> containsMarker cs"
  proof
    assume "containsMarker cs"
    then obtain pre name post where "isName name" and "cs = pre @ marker name @ post"
      unfolding containsMarker_iff by blast
    then have "isName name \<and> c # cs = (c # pre) @ marker name @ post" by simp
    then have "containsMarker (c # cs)"
      unfolding containsMarker_iff by blast
    with "2.prems" show False by simp
  qed
  from "2.IH"(1) [OF none this] none show ?case by simp
qed

lemma getShellName_braced:
  assumes ne: "name \<noteq> []" and nb: "CHR ''}'' \<notin> set name"
  shows "getShellName (''{'' @ name @ ''}'' @ rest) = (name, length name + 2)"
proof -
  let ?s = "''{'' @ name @ ''}'' @ rest"
  have "\<And>x. x \<in> set name \<Longrightarrow> x \<noteq> CHR ''}''"
    using nb by auto
  then have "takeWhile (\<lambda>c. c \<noteq> CHR ''}'') (name @ CHR ''}'' # rest)
             = name @ takeWhile (\<lambda>c. c \<noteq> CHR ''}'') (CHR ''}'' # rest)"
    by (rule takeWhile_append2)
  then have tw: "takeWhile (\<lambda>c. c \<noteq> CHR ''}'') (name @ CHR ''}'' # rest) = name"
    by simp
  have general: "(let n = takeWhile (\<lambda>c. c \<noteq> CHR ''}'') (tl ?s)
                  in if n = [] then ([], 2) else (n, length n + 2)) = (name, length name + 2)"
    using tw ne by simp
  have special: "[?s ! 1] = name \<and> (3::nat) = length name + 2"
    if "?s ! 2 = CHR ''}''"
  proof (cases name)
    case Nil
    with ne show ?thesis by simp
  next
    case (Cons x xs)
    show ?thesis
    proof (cases xs)
      case Nil
      with Cons show ?thesis by simp
    next
      case (Cons y ys)
      with \<open>name = x # xs\<close> that have "y = CHR ''}''" by simp
      with Cons \<open>name = x # xs\<close> nb show ?thesis by simp
    qed
  qed
  have mem: "CHR ''}'' \<in> set (tl ?s)"
    by simp
  show ?thesis
    unfolding getShellName_def using general special mem by auto
qed

lemma Expand_reference:
  assumes ne: "name \<noteq> []" and nb: "CHR ''}'' \<notin> set name"
  shows "Expand (''${'' @ name @ ''}'' @ rest) mapping = mapping name @ Expand rest mapping"
proof -
  have "Expand (CHR ''$'' # (''{'' @ name @ ''}'' @ rest)) mapping
        = mapping name @ Expand (drop (length name + 2) (''{'' @ name @ ''}'' @ rest)) mapping"
    using getShellName_braced [OF ne nb, of rest] ne
    by (simp del: getShellName_def)
  then show ?thesis by simp
qed

lemma isName_no_brace: "isName name \<Longrightarrow> CHR ''}'' \<notin> set name"
  by (auto simp: isName_def list_all_iff)

lemma takeWhile_append_stop: "\<not> P y \<Longrightarrow> takeWhile P (xs @ y # ys) = takeWhile P xs"
  by (induction xs) auto

lemma dollar_not_alnum: "\<not> isAlphaNum CHR ''$''"
  by (simp add: isAlphaNum_def)

lemma getShellName_append_dollar:
  assumes ne: "cs \<noteq> []" and closed: "\<not> (hd cs = CHR ''{'' \<and> CHR ''}'' \<notin> set (tl cs))"
  shows "getShellName (cs @ CHR ''$'' # zs) = getShellName cs
         \<and> snd (getShellName cs) \<le> length cs"
proof (cases "hd cs = CHR ''{''")
  case True
  with closed have mem: "CHR ''}'' \<in> set (tl cs)" by simp
  then obtain x where x: "x \<in> set (tl cs)" "\<not> x \<noteq> CHR ''}''" by auto
  have tw: "takeWhile (\<lambda>c. c \<noteq> CHR ''}'') (tl cs @ CHR ''$'' # zs)
            = takeWhile (\<lambda>c. c \<noteq> CHR ''}'') (tl cs)"
    using takeWhile_append1 [of x "tl cs" "\<lambda>c. c \<noteq> CHR ''}''"] x by simp
  have "dropWhile (\<lambda>c. c \<noteq> CHR ''}'') (tl cs) \<noteq> []"
    using x by (auto simp: dropWhile_eq_Nil_conv)
  then have "0 < length (dropWhile (\<lambda>c. c \<noteq> CHR ''}'') (tl cs))"
    by simp
  moreover have "length (takeWhile (\<lambda>c. c \<noteq> CHR ''}'') (tl cs))
                 + length (dropWhile (\<lambda>c. c \<noteq> CHR ''}'') (tl cs)) = length (tl cs)"
    by (metis length_append takeWhile_dropWhile_id)
  ultimately have len: "length (takeWhile (\<lambda>c. c \<noteq> CHR ''}'') (tl cs)) < length (tl cs)"
    by linarith
  have tl_app: "tl (cs @ CHR ''$'' # zs) = tl cs @ CHR ''$'' # zs"
    using ne by simp
  have hd_app: "hd (cs @ CHR ''$'' # zs) = hd cs"
    using ne by simp
  have special: "(length (cs @ CHR ''$'' # zs) > 2 \<and> isShellSpecialVar ((cs @ CHR ''$'' # zs) ! 1)
                   \<and> (cs @ CHR ''$'' # zs) ! 2 = CHR ''}'')
                 = (length cs > 2 \<and> isShellSpecialVar (cs ! 1) \<and> cs ! 2 = CHR ''}'')"
    and nth1: "length cs > 2 \<Longrightarrow> (cs @ CHR ''$'' # zs) ! 1 = cs ! 1"
  proof -
    show "length cs > 2 \<Longrightarrow> (cs @ CHR ''$'' # zs) ! 1 = cs ! 1"
      by (simp add: nth_append)
    have "0 < length cs" using ne by simp
    then consider "length cs = 1" | "length cs = 2" | "length cs > 2"
      by linarith
    then show "(length (cs @ CHR ''$'' # zs) > 2 \<and> isShellSpecialVar ((cs @ CHR ''$'' # zs) ! 1)
                   \<and> (cs @ CHR ''$'' # zs) ! 2 = CHR ''}'')
                 = (length cs > 2 \<and> isShellSpecialVar (cs ! 1) \<and> cs ! 2 = CHR ''}'')"
    proof cases
      case 1
      then have "tl cs = []" by (cases cs) auto
      with mem show ?thesis by simp
    next
      case 2
      then obtain a b where cs: "cs = [a, b]"
        by (cases cs; cases "tl cs") auto
      with mem have "b = CHR ''}''" by simp
      with cs show ?thesis by (simp add: isShellSpecialVar_def)
    next
      case 3
      then show ?thesis by (simp add: nth_append)
    qed
  qed
  show ?thesis
    unfolding getShellName_def hd_app tl_app tw special
    using True mem len nth1 by (auto simp: Let_def)
next
  case False
  have hd_app: "hd (cs @ CHR ''$'' # zs) = hd cs"
    using ne by simp
  have tw: "takeWhile isAlphaNum (cs @ CHR ''$'' # zs) = takeWhile isAlphaNum cs"
    using takeWhile_append_stop [of isAlphaNum "CHR ''$''" cs zs] dollar_not_alnum by simp
  show ?thesis
    unfolding getShellName_def hd_app tw
    using False ne by (auto simp: length_takeWhile_le Suc_le_eq)
qed

lemma Expand_append_reference:
  "\<not> leavesReferenceOpen xs \<Longrightarrow>
   Expand (xs @ CHR ''$'' # zs) mapping = Expand xs mapping @ Expand (CHR ''$'' # zs) mapping"
proof (induction xs rule: leavesReferenceOpen.induct)
  case 1
  show ?case by simp
next
  case (2 c cs)
  show ?case
  proof (cases "c = CHR ''$''")
    case False
    with "2.prems" have "\<not> leavesReferenceOpen cs" by simp
    from "2.IH"(2) [OF False this] False show ?thesis by simp
  next
    case True
    with "2.prems" have ne: "cs \<noteq> []"
      and closed: "\<not> (hd cs = CHR ''{'' \<and> CHR ''}'' \<notin> set (tl cs))"
      and rest: "\<not> leavesReferenceOpen (drop (snd (getShellName cs)) cs)"
      by simp_all
    obtain name w where g: "getShellName cs = (name, w)"
      by (cases "getShellName cs")
    from getShellName_append_dollar [OF ne closed, of zs] g
    have g': "getShellName (cs @ CHR ''$'' # zs) = (name, w)" and w: "w \<le> length cs"
      by simp_all
    have ih: "Expand (drop w cs @ CHR ''$'' # zs) mapping
              = Expand (drop w cs) mapping @ Expand (CHR ''$'' # zs) mapping"
      using "2.IH"(1) [OF True] ne closed rest g by simp
    have "Expand ((c # cs) @ CHR ''$'' # zs) mapping
          = (if name = [] \<and> w > 0 then [] else if name = [] then [c] else mapping name)
            @ Expand (drop w cs @ CHR ''$'' # zs) mapping"
      using True g' w by simp
    also have "\<dots> = ((if name = [] \<and> w > 0 then [] else if name = [] then [c] else mapping name)
            @ Expand (drop w cs) mapping) @ Expand (CHR ''$'' # zs) mapping"
      using ih by simp
    also have "(if name = [] \<and> w > 0 then [] else if name = [] then [c] else mapping name)
            @ Expand (drop w cs) mapping = Expand (c # cs) mapping"
      using True g ne by simp
    finally show ?thesis .
  qed
qed

lemma no_percent_not_open: "CHR ''%'' \<notin> set pre \<Longrightarrow> \<not> markerOpenAtEnd pre"
proof (induction pre)
  case Nil
  show ?case by simp
next
  case (Cons c cs)
  then have "c \<noteq> CHR ''%''" by auto
  then have "matchMarker (c # cs) = None"
    by (simp add: matchMarker_def)
  with Cons \<open>c \<noteq> CHR ''%''\<close> show ?case by simp
qed

lemma no_dollar_not_open:
  "CHR ''$'' \<notin> set pre \<Longrightarrow> \<not> leavesReferenceOpen (ReplaceAll pre)"
proof (induction pre rule: ReplaceAll.induct)
  case 1
  show ?case by simp
next
  case (2 c cs)
  show ?case
  proof (cases "matchMarker (c # cs)")
    case None
    from "2.prems" have c: "c \<noteq> CHR ''$''" and cs: "CHR ''$'' \<notin> set cs"
      by auto
    show ?thesis
      using "2.IH"(1) [OF None cs] None c by simp
  next
    case (Some p)
    obtain name tl where p: "p = (name, tl)" by (cases p)
    from matchMarker_SomeD [OF Some [unfolded p]]
    have eq: "c # cs = marker name @ tl" and n: "isName name" by simp_all
    have "set tl \<subseteq> set (c # cs)"
      unfolding eq by auto
    with "2.prems" have "CHR ''$'' \<notin> set tl" by auto
    then have ih: "\<not> leavesReferenceOpen (ReplaceAll tl)"
      using "2.IH"(2) [OF Some [unfolded p] refl] by simp
    have ne: "name \<noteq> []" using n by (simp add: isName_def)
    have r: "ReplaceAll (c # cs) = CHR ''$'' # (''{'' @ name @ ''}'' @ ReplaceAll tl)"
      using ReplaceAll_marker [OF n, of tl] eq by simp
    have g: "getShellName (''{'' @ name @ ''}'' @ ReplaceAll tl) = (name, length name + 2)"
      by (rule getShellName_braced [OF ne isName_no_brace [OF n]])
    show ?thesis
      unfolding r using g ih by simp
  qed
qed

lemma getShellName_inert:
  "s \<noteq> [] \<Longrightarrow> \<not> startsReference (hd s) \<Longrightarrow> getShellName s = ([], 0)"
  by (cases s) (simp_all add: getShellName_def startsReference_def)

lemma Expand_inert: "inertDollars s \<Longrightarrow> Expand s mapping = s"
proof (induction s)
  case Nil
  show ?case by simp
next
  case (Cons c cs)
  then have ih: "Expand cs mapping = cs" by simp
  show ?case
  proof (cases "c = CHR ''$'' \<and> cs \<noteq> []")
    case True
    with Cons.prems have "getShellName cs = ([], 0)"
      by (intro getShellName_inert) simp_all
    with True ih show ?thesis by (simp del: getShellName_def)
  next
    case False
    with ih show ?thesis by auto
  qed
qed

lemma lateExpand_marker:
  assumes "\<not> markerOpenAtEnd pre" and "\<not> leavesReferenceOpen (ReplaceAll pre)"
    and n: "isName name"
  shows "lateExpand environ (pre @ marker name @ post)
         = lateExpand environ pre @ Getenv environ name @ lateExpand environ post"
proof -
  have ne: "name \<noteq> []" using n by (simp add: isName_def)
  have "ReplaceAll (pre @ marker name @ post)
        = ReplaceAll pre @ ReplaceAll (marker name @ post)"
    using ReplaceAll_append_percent [OF assms(1), of "name @ ''%'' @ post"]
    by (simp add: marker_def)
  also have "\<dots> = ReplaceAll pre @ CHR ''$'' # (''{'' @ name @ ''}'' @ ReplaceAll post)"
    using ReplaceAll_marker [OF n, of post] by simp
  finally have "lateExpand environ (pre @ marker name @ post)
        = Expand (ReplaceAll pre @ CHR ''$'' # (''{'' @ name @ ''}'' @ ReplaceAll post))
            (Getenv environ)"
    by (simp add: lateExpand_def ExpandEnv_def)
  also have "\<dots> = Expand (ReplaceAll pre) (Getenv environ)
        @ Expand (CHR ''$'' # (''{'' @ name @ ''}'' @ ReplaceAll post)) (Getenv environ)"
    by (rule Expand_append_reference [OF assms(2)])
  also have "Expand (CHR ''$'' # (''{'' @ name @ ''}'' @ ReplaceAll post)) (Getenv environ)
        = Getenv environ name @ Expand (ReplaceAll post) (Getenv environ)"
    using Expand_reference [OF ne isName_no_brace [OF n], of "ReplaceAll post" "Getenv environ"]
    by simp
  finally show ?thesis
    by (simp add: lateExpand_def ExpandEnv_def)
qed

section \<open>Lemmas on the environment and the loop of \<^verbatim>\<open>getEnvMap\<close>\<close>

lemma envKey_assignment: "CHR ''='' \<notin> set name \<Longrightarrow> envKey (assignment name v) = name"
proof -
  assume "CHR ''='' \<notin> set name"
  then have "\<And>x. x \<in> set name \<Longrightarrow> x \<noteq> CHR ''=''" by auto
  then have "takeWhile (\<lambda>c. c \<noteq> CHR ''='') (name @ CHR ''='' # v)
             = name @ takeWhile (\<lambda>c. c \<noteq> CHR ''='') (CHR ''='' # v)"
    by (rule takeWhile_append2)
  then show ?thesis by (simp add: envKey_def assignment_def)
qed

lemma envValue_assignment: "CHR ''='' \<notin> set name \<Longrightarrow> envValue (assignment name v) = v"
proof -
  assume "CHR ''='' \<notin> set name"
  then have "\<And>x. x \<in> set name \<Longrightarrow> x \<noteq> CHR ''=''" by auto
  then have "dropWhile (\<lambda>c. c \<noteq> CHR ''='') (name @ CHR ''='' # v)
             = dropWhile (\<lambda>c. c \<noteq> CHR ''='') (CHR ''='' # v)"
    by (rule dropWhile_append2)
  then show ?thesis by (simp add: envValue_def assignment_def)
qed

lemma isName_no_equals: "isName name \<Longrightarrow> CHR ''='' \<notin> set name"
  by (auto simp: isName_def list_all_iff isNameChar_def isWord_def)

lemma Getenv_found:
  "distinct (map envKey environ) \<Longrightarrow> a \<in> set environ \<Longrightarrow> CHR ''='' \<in> set a \<Longrightarrow>
   envKey a \<noteq> [] \<Longrightarrow> Getenv environ (envKey a) = envValue a"
proof (induction environ)
  case Nil
  then show ?case by simp
next
  case (Cons b bs)
  show ?case
  proof (cases "a = b")
    case True
    with Cons.prems show ?thesis by simp
  next
    case False
    with Cons.prems have mem: "a \<in> set bs" by simp
    then have "envKey a \<in> envKey ` set bs" by (rule imageI)
    with Cons.prems(1) have "envKey b \<noteq> envKey a" by auto
    then show ?thesis
      using Cons.IH [OF _ mem Cons.prems(3,4)] Cons.prems(1) by simp
  qed
qed

lemma Getenv_missing:
  "(\<And>a. a \<in> set environ \<Longrightarrow> CHR ''='' \<in> set a \<Longrightarrow> envKey a \<noteq> key) \<Longrightarrow>
   Getenv environ key = []"
  by (induction environ) auto

lemma Getenv_empty_key: "Getenv environ [] = []"
  by (induction environ) auto

lemma Getenv_same_set:
  assumes d1: "distinct (map envKey e1)" and d2: "distinct (map envKey e2)"
    and eq: "set e1 = set e2"
  shows "Getenv e1 key = Getenv e2 key"
proof (cases "key \<noteq> [] \<and> (\<exists>a\<in>set e1. CHR ''='' \<in> set a \<and> envKey a = key)")
  case True
  then obtain a where a: "a \<in> set e1" "CHR ''='' \<in> set a" "envKey a = key" and k: "key \<noteq> []"
    by blast
  have "Getenv e1 (envKey a) = envValue a"
    using a k by (intro Getenv_found [OF d1]) simp_all
  moreover have "Getenv e2 (envKey a) = envValue a"
    using a k eq by (intro Getenv_found [OF d2]) simp_all
  ultimately show ?thesis
    using a by simp
next
  case False
  show ?thesis
  proof (cases "key = []")
    case True
    then show ?thesis by (simp add: Getenv_empty_key)
  next
    case False
    with \<open>\<not> (key \<noteq> [] \<and> (\<exists>a\<in>set e1. CHR ''='' \<in> set a \<and> envKey a = key))\<close>
    have none: "\<And>a. a \<in> set e1 \<Longrightarrow> CHR ''='' \<in> set a \<Longrightarrow> envKey a \<noteq> key"
      by blast
    have "Getenv e1 key = []"
      by (rule Getenv_missing) (rule none)
    moreover have "Getenv e2 key = []"
      by (rule Getenv_missing) (use none eq in auto)
    ultimately show ?thesis by simp
  qed
qed

lemma fst_entryOf: "map fst (map (entryOf environ) as) = map envKey as"
  by (simp add: entryOf_def comp_def)

lemma getEnvMap_loop_ok:
  "list_all (\<lambda>a. CHR ''='' \<in> set a) as \<Longrightarrow>
   getEnvMap_loop environ as envMap = Inr (envMap ++ map_of (rev (map (entryOf environ) as)))"
proof (induction as arbitrary: envMap)
  case Nil
  show ?case by simp
next
  case (Cons a as)
  then have a: "CHR ''='' \<in> set a" and as: "list_all (\<lambda>a. CHR ''='' \<in> set a) as"
    by simp_all
  let ?envMap' = "envMap(envKey a \<mapsto> ExtendedString (lateExpand environ (envValue a)))"
  have "getEnvMap_loop environ (a # as) envMap = getEnvMap_loop environ as ?envMap'"
    using a by (simp add: SplitN_eq2_def lateExpand_def)
  also have "\<dots> = Inr (?envMap' ++ map_of (rev (map (entryOf environ) as)))"
    by (rule Cons.IH [OF as])
  also have "?envMap' ++ map_of (rev (map (entryOf environ) as))
             = envMap ++ map_of (rev (map (entryOf environ) (a # as)))"
    by (simp add: entryOf_def)
  finally show ?case .
qed

lemma getEnvMap_loop_panic:
  "\<not> list_all (\<lambda>a. CHR ''='' \<in> set a) as \<Longrightarrow>
   getEnvMap_loop environ as envMap = Inl (IndexOutOfRange 1 1)"
  by (induction as arbitrary: envMap) (auto simp: SplitN_eq2_def)

lemma map_of_rev_distinct:
  "distinct (map fst xs) \<Longrightarrow> map_of (rev xs) = map_of xs"
  by (subst map_of_inject_set) (simp_all add: rev_map [symmetric])

lemma getEnvMap_wellFormed:
  assumes "wellFormedEnviron environ"
  shows "getEnvMap environ = Inr (map_of (map (entryOf environ) environ))"
proof -
  from assms have wf: "list_all (\<lambda>a. CHR ''='' \<in> set a) environ"
    and d: "distinct (map envKey environ)"
    by (simp_all add: wellFormedEnviron_def)
  have "map_of (rev (map (entryOf environ) environ)) = map_of (map (entryOf environ) environ)"
    by (rule map_of_rev_distinct) (simp only: fst_entryOf d)
  then show ?thesis
    using getEnvMap_loop_ok [OF wf, of environ Map.empty] by (simp add: getEnvMap_def)
qed

lemma getEnvMap_entry:
  assumes wf: "wellFormedEnviron environ" and mem: "assignment name raw \<in> set environ"
    and ne: "CHR ''='' \<notin> set name"
  shows "contextOf (getEnvMap environ) name = Some (ExtendedString (lateExpand environ raw))"
proof -
  from wf have d: "distinct (map envKey environ)"
    by (simp add: wellFormedEnviron_def)
  have dist: "distinct (map fst (map (entryOf environ) environ))"
    by (simp only: fst_entryOf d)
  have "entryOf environ (assignment name raw) \<in> set (map (entryOf environ) environ)"
    using mem by simp
  then have "(name, ExtendedString (lateExpand environ raw)) \<in> set (map (entryOf environ) environ)"
    by (simp add: entryOf_def envKey_assignment [OF ne] envValue_assignment [OF ne])
  then have "map_of (map (entryOf environ) environ) name
             = Some (ExtendedString (lateExpand environ raw))"
    by (rule map_of_is_SomeI [OF dist])
  then show ?thesis
    using getEnvMap_wellFormed [OF wf] by (simp add: contextOf_def)
qed

lemma Getenv_own:
  assumes wf: "wellFormedEnviron environ" and mem: "assignment name raw \<in> set environ"
    and n: "isName name"
  shows "Getenv environ name = raw"
proof -
  have ne: "CHR ''='' \<notin> set name" by (rule isName_no_equals [OF n])
  from wf have d: "distinct (map envKey environ)"
    by (simp add: wellFormedEnviron_def)
  have eq: "CHR ''='' \<in> set (assignment name raw)"
    by (simp add: assignment_def)
  have key: "envKey (assignment name raw) \<noteq> []"
    using n by (simp add: envKey_assignment [OF ne] isName_def)
  have "Getenv environ (envKey (assignment name raw)) = envValue (assignment name raw)"
    by (rule Getenv_found [OF d mem eq key])
  then show ?thesis
    by (simp add: envKey_assignment [OF ne] envValue_assignment [OF ne])
qed

lemmas env_eval =
  getEnvMap_def SplitN_eq2_def envKey_def envValue_def ExpandEnv_def matchMarker_def
  isNameChar_def isWord_def extractName_def isLetterDigit_def isDigit_def getShellName_def
  isShellSpecialVar_def isAlphaNum_def contextOf_def lateExpand_def wellFormedEnviron_def
  isName_def marker_def assignment_def

section \<open>Lemmas on \<^verbatim>\<open>strings.Index\<close>\<close>

lemma Index_None_iff: "Index s sep = None \<longleftrightarrow> \<not> occursIn sep s"
proof (induction s)
  case Nil
  show ?case by (auto simp: occursIn_def)
next
  case (Cons c cs)
  show ?case
  proof (cases "take (length sep) (c # cs) = sep")
    case True
    then have "c # cs = [] @ sep @ drop (length sep) (c # cs)"
      by (metis append_Nil append_take_drop_id)
    then have "occursIn sep (c # cs)"
      unfolding occursIn_def by blast
    with True show ?thesis by simp
  next
    case False
    have "occursIn sep (c # cs) \<longleftrightarrow> occursIn sep cs"
    proof
      assume "occursIn sep (c # cs)"
      then obtain pre post where eq: "c # cs = pre @ sep @ post"
        unfolding occursIn_def by blast
      show "occursIn sep cs"
      proof (cases pre)
        case Nil
        with eq have "take (length sep) (c # cs) = sep" by simp
        with False show ?thesis by simp
      next
        case (Cons p ps)
        with eq have "cs = ps @ sep @ post" by simp
        then show ?thesis unfolding occursIn_def by blast
      qed
    next
      assume "occursIn sep cs"
      then obtain pre post where "cs = pre @ sep @ post"
        unfolding occursIn_def by blast
      then have "c # cs = (c # pre) @ sep @ post" by simp
      then show "occursIn sep (c # cs)" unfolding occursIn_def by blast
    qed
    with False Cons.IH show ?thesis by simp
  qed
qed

section \<open>Lemmas on the JSON encoding\<close>

lemma leading_facts:
  "leading s0 = Some (sz, lo, hi) \<Longrightarrow> (sz = 2 \<or> sz = 3 \<or> sz = 4) \<and> 0x80 \<le> lo"
  unfolding leading_def by (simp split: if_splits)

lemma byte_append_left: "i < length xs \<Longrightarrow> byte (xs @ zs) i = byte xs i"
  by (simp add: byte_def nth_append)

lemma byte_append_at: "byte (xs @ b # ys) (length xs) = of_char b"
  by (simp add: byte_def)

lemma DecodeRuneInString_append_ascii:
  assumes ne: "xs \<noteq> []" and ascii: "(of_char b :: nat) < 0x80"
  shows "DecodeRuneInString (xs @ b # ys) = DecodeRuneInString xs"
proof (cases "leading (byte xs 0)")
  case None
  then show ?thesis
    using ne by (simp add: DecodeRuneInString_def byte_append_left)
next
  case (Some p)
  obtain sz lo hi where p: "p = (sz, lo, hi)" by (cases p)
  from leading_facts [OF Some [unfolded p]]
  have sz: "sz = 2 \<or> sz = 3 \<or> sz = 4" and lo: "0x80 \<le> lo" by simp_all
  have b0: "byte (xs @ b # ys) 0 = byte xs 0"
    using ne by (simp add: byte_append_left)
  have lead: "leading (byte (xs @ b # ys) 0) = Some (sz, lo, hi)"
    using Some p b0 by simp
  let ?zs = "xs @ b # ys"
  have "0 < length xs" using ne by simp
  then consider (one) "length xs = 1" | (two) "length xs = 2" | (three) "length xs = 3"
    | (more) "4 \<le> length xs"
    by linarith
  then show ?thesis
  proof cases
    case one
    then have z1: "byte ?zs 1 = of_char b"
      using byte_append_at [of xs b ys] by simp
    have "DecodeRuneInString xs = (if byte xs 0 < 0x80 then (byte xs 0, 1) else (RuneError, 1))"
      using ne Some p sz one by (auto simp: DecodeRuneInString_def)
    moreover have "DecodeRuneInString ?zs
                   = (if byte xs 0 < 0x80 then (byte xs 0, 1) else (RuneError, 1))"
      using lead b0 z1 ascii lo by (auto simp: DecodeRuneInString_def)
    ultimately show ?thesis by simp
  next
    case two
    then have z1: "byte ?zs 1 = byte xs 1" and z2: "byte ?zs 2 = of_char b"
      using byte_append_at [of xs b ys] by (simp_all add: byte_append_left)
    show ?thesis
      using ne Some p sz two lead b0 z1 z2 ascii
      by (auto simp: DecodeRuneInString_def)
  next
    case three
    then have z1: "byte ?zs 1 = byte xs 1" and z2: "byte ?zs 2 = byte xs 2"
      and z3: "byte ?zs 3 = of_char b"
      using byte_append_at [of xs b ys] by (simp_all add: byte_append_left)
    show ?thesis
      using ne Some p sz three lead b0 z1 z2 z3 ascii
      by (auto simp: DecodeRuneInString_def)
  next
    case more
    then have z1: "byte ?zs 1 = byte xs 1" and z2: "byte ?zs 2 = byte xs 2"
      and z3: "byte ?zs 3 = byte xs 3"
      by (simp_all add: byte_append_left)
    show ?thesis
      using ne Some p sz more lead b0 z1 z2 z3
      by (auto simp: DecodeRuneInString_def)
  qed
qed

lemma appendString_body_append_ascii:
  assumes ascii: "(of_char b :: nat) < 0x80"
  shows "appendString_body (xs @ b # ys) = appendString_body xs @ appendString_body (b # ys)"
proof (induction "length xs" arbitrary: xs rule: less_induct)
  case less
  show ?case
  proof (cases xs)
    case Nil
    then show ?thesis by simp
  next
    case (Cons b0 rest)
    show ?thesis
    proof (cases "(of_char b0 :: nat) < 0x80")
      case True
      have "appendString_body (rest @ b # ys)
            = appendString_body rest @ appendString_body (b # ys)"
        using less [of rest] Cons by simp
      then show ?thesis
        using Cons True by simp
    next
      case False
      obtain c w where d: "DecodeRuneInString xs = (c, w)"
        by (cases "DecodeRuneInString xs")
      have ne: "xs \<noteq> []" using Cons by simp
      have d': "DecodeRuneInString (xs @ b # ys) = (c, w)"
        using DecodeRuneInString_append_ascii [OF ne ascii] d by simp
      have w: "1 \<le> w" "w \<le> length xs"
        using DecodeRuneInString_size [OF ne] d by simp_all
      then have dr: "drop w (xs @ b # ys) = drop w xs @ b # ys"
        and tk: "take w (xs @ b # ys) = take w xs"
        by simp_all
      have "length (drop w xs) < length xs"
        using w ne by simp
      then have ih: "appendString_body (drop w xs @ b # ys)
                     = appendString_body (drop w xs) @ appendString_body (b # ys)"
        by (rule less)
      have l: "appendString_body (xs @ b # ys) =
               (if c = RuneError \<and> w = 1 then
                  backslash # ''ufffd'' @ appendString_body (drop w (xs @ b # ys))
                else if c = 0x2028 \<or> c = 0x2029 then
                  backslash # ''u202'' @ [hex (c mod 16)]
                    @ appendString_body (drop w (xs @ b # ys))
                else take w (xs @ b # ys) @ appendString_body (drop w (xs @ b # ys)))"
        using d' False unfolding Cons by (simp del: drop_Suc_Cons take_Suc_Cons)
      have r: "appendString_body xs =
               (if c = RuneError \<and> w = 1 then
                  backslash # ''ufffd'' @ appendString_body (drop w xs)
                else if c = 0x2028 \<or> c = 0x2029 then
                  backslash # ''u202'' @ [hex (c mod 16)] @ appendString_body (drop w xs)
                else take w xs @ appendString_body (drop w xs))"
        using d False unfolding Cons by (simp del: drop_Suc_Cons take_Suc_Cons)
      show ?thesis
        unfolding l r dr tk ih by simp
    qed
  qed
qed

lemma hex_digit: "n < 16 \<Longrightarrow> hex n \<in> set ''0123456789abcdef''"
  unfolding hex_def by (rule nth_mem) simp

lemma hex_not_html: "n < 16 \<Longrightarrow> hex n \<notin> {CHR ''&'', CHR ''<'', CHR ''>''}"
  using hex_digit [of n] by auto

lemma escapeByte_not_html:
  assumes "(of_char b :: nat) < 0x80"
  shows "set (escapeByte b) \<inter> {CHR ''&'', CHR ''<'', CHR ''>''} = {}"
proof -
  have "(of_char b :: nat) div 16 < 16" "(of_char b :: nat) mod 16 < 16"
    using assms by simp_all
  then have "hex (of_char b div 16) \<notin> {CHR ''&'', CHR ''<'', CHR ''>''}"
    and "hex (of_char b mod 16) \<notin> {CHR ''&'', CHR ''<'', CHR ''>''}"
    by (simp_all only: hex_not_html not_False_eq_True)
  then show ?thesis
    by (auto simp: escapeByte_def backslash_def quote_def)
qed

lemma html_chars_ascii:
  "x \<in> {CHR ''&'', CHR ''<'', CHR ''>''} \<Longrightarrow> (of_char x :: nat) < 0x80"
  by auto

lemma DecodeRuneInString_valid_bytes:
  assumes d: "DecodeRuneInString s = (c, w)" and ne: "s \<noteq> []"
    and hi: "\<not> (byte s 0 < 0x80)" and ok: "\<not> (c = RuneError \<and> w = 1)"
  shows "\<forall>x\<in>set (take w s). (0x80::nat) \<le> of_char x"
proof (cases "leading (byte s 0)")
  case None
  with d ne hi ok show ?thesis
    by (simp add: DecodeRuneInString_def)
next
  case (Some p)
  obtain sz lo hi' where p: "p = (sz, lo, hi')" by (cases p)
  from leading_facts [OF Some [unfolded p]]
  have sz: "sz = 2 \<or> sz = 3 \<or> sz = 4" and lo: "0x80 \<le> lo" by simp_all
  have w: "w \<le> length s"
    using DecodeRuneInString_size [OF ne] d by simp
  have bytes: "0x80 \<le> byte s i" if "i < w" for i
  proof -
    from d ne hi ok Some p sz
    have "w = sz \<and> \<not> byte s 1 < lo \<and> (3 \<le> sz \<longrightarrow> \<not> byte s 2 < 0x80)
          \<and> (4 \<le> sz \<longrightarrow> \<not> byte s 3 < 0x80)"
      by (auto simp: DecodeRuneInString_def split: if_splits)
    moreover from that sz calculation have "i = 0 \<or> i = 1 \<or> i = 2 \<or> i = 3"
      by auto
    ultimately show ?thesis
      using hi lo that by auto
  qed
  show ?thesis
  proof
    fix x assume "x \<in> set (take w s)"
    then obtain i where i: "i < length (take w s)" and x: "x = take w s ! i"
      by (auto simp: in_set_conv_nth)
    then have "i < w" by simp
    from bytes [OF this] x i show "(0x80::nat) \<le> of_char x"
      by (simp add: byte_def)
  qed
qed

lemma appendString_body_not_html:
  "set (appendString_body s) \<inter> {CHR ''&'', CHR ''<'', CHR ''>''} = {}"
proof (induction "length s" arbitrary: s rule: less_induct)
  case less
  show ?case
  proof (cases s)
    case Nil
    then show ?thesis by simp
  next
    case (Cons b0 rest)
    show ?thesis
    proof (cases "(of_char b0 :: nat) < 0x80")
      case True
      have ih: "set (appendString_body rest) \<inter> {CHR ''&'', CHR ''<'', CHR ''>''} = {}"
        using less [of rest] Cons by simp
      have "set (if htmlSafeSet b0 then [b0] else escapeByte b0)
              \<inter> {CHR ''&'', CHR ''<'', CHR ''>''} = {}"
        using escapeByte_not_html [OF True] by (auto simp: htmlSafeSet_def)
      with ih show ?thesis
        using Cons True by (auto simp del: appendString_body.simps
            simp add: appendString_body.simps(2) [of b0 rest])
    next
      case False
      obtain c w where d: "DecodeRuneInString s = (c, w)"
        by (cases "DecodeRuneInString s")
      have ne: "s \<noteq> []" using Cons by simp
      have w: "1 \<le> w" "w \<le> length s"
        using DecodeRuneInString_size [OF ne] d by simp_all
      have "length (drop w s) < length s"
        using w ne by simp
      then have ih: "set (appendString_body (drop w s)) \<inter> {CHR ''&'', CHR ''<'', CHR ''>''} = {}"
        by (rule less)
      have r: "appendString_body s =
               (if c = RuneError \<and> w = 1 then
                  backslash # ''ufffd'' @ appendString_body (drop w s)
                else if c = 0x2028 \<or> c = 0x2029 then
                  backslash # ''u202'' @ [hex (c mod 16)] @ appendString_body (drop w s)
                else take w s @ appendString_body (drop w s))"
        using d False unfolding Cons by (simp del: drop_Suc_Cons take_Suc_Cons)
      have hx: "hex (c mod 16) \<notin> {CHR ''&'', CHR ''<'', CHR ''>''}"
        by (rule hex_not_html) simp
      have b0: "\<not> byte s 0 < 0x80"
        using False Cons by (simp add: byte_def)
      have tk: "set (take w s) \<inter> {CHR ''&'', CHR ''<'', CHR ''>''} = {}"
        if "\<not> (c = RuneError \<and> w = 1)"
      proof -
        have "\<forall>x\<in>set (take w s). (0x80::nat) \<le> of_char x"
          by (rule DecodeRuneInString_valid_bytes [OF d ne b0 that])
        then show ?thesis
          using html_chars_ascii by fastforce
      qed
      show ?thesis
        unfolding r using ih hx tk by (auto simp: backslash_def)
    qed
  qed
qed

lemma ToJSON_ascii_byte:
  assumes "(of_char b :: nat) < 0x80"
  shows "ToJSON (ExtendedString (s1 @ [b] @ s2)) =
           ([], ExtendedString (quote # appendString_body s1
                  @ (if htmlSafeSet b then [b] else escapeByte b)
                  @ appendString_body s2 @ [quote]))"
  using appendString_body_append_ascii [OF assms, of s1 s2] assms
  by (simp add: ToJSON_def Marshal_def)

lemma escapeByte_html:
  "c \<in> {CHR ''&'', CHR ''<'', CHR ''>''} \<Longrightarrow> \<not> htmlSafeSet c \<and> escapeByte c = htmlEscape c"
proof -
  assume "c \<in> {CHR ''&'', CHR ''<'', CHR ''>''}"
  then consider "c = CHR ''&''" | "c = CHR ''<''" | "c = CHR ''>''" by blast
  then show ?thesis
  proof cases
    case 1
    then show ?thesis
      by (simp add: htmlSafeSet_def escapeByte_def htmlEscape_def hex_def backslash_def quote_def)
  next
    case 2
    then show ?thesis
      by (simp add: htmlSafeSet_def escapeByte_def htmlEscape_def hex_def backslash_def quote_def)
  next
    case 3
    then show ?thesis
      by (simp add: htmlSafeSet_def escapeByte_def htmlEscape_def hex_def backslash_def quote_def)
  qed
qed

lemma hex_printable: "n < 16 \<Longrightarrow> (0x20::nat) \<le> of_char (hex n)"
  using hex_digit [of n] by auto

lemma escapeByte_printable:
  assumes "(of_char b :: nat) < 0x80" and "\<not> htmlSafeSet b"
  shows "\<forall>x\<in>set (escapeByte b). (0x20::nat) \<le> of_char x"
proof -
  have "(of_char b :: nat) div 16 < 16" "(of_char b :: nat) mod 16 < 16"
    using assms(1) by simp_all
  then have "(0x20::nat) \<le> of_char (hex (of_char b div 16))"
    and "(0x20::nat) \<le> of_char (hex (of_char b mod 16))"
    by (simp_all only: hex_printable)
  then show ?thesis
    by (auto simp: escapeByte_def backslash_def quote_def)
qed

lemma appendString_body_printable:
  "\<forall>x\<in>set (appendString_body s). (0x20::nat) \<le> of_char x"
proof (induction "length s" arbitrary: s rule: less_induct)
  case less
  show ?case
  proof (cases s)
    case Nil
    then show ?thesis by simp
  next
    case (Cons b0 rest)
    show ?thesis
    proof (cases "(of_char b0 :: nat) < 0x80")
      case True
      have ih: "\<forall>x\<in>set (appendString_body rest). (0x20::nat) \<le> of_char x"
        using less [of rest] Cons by simp
      have "\<forall>x\<in>set (if htmlSafeSet b0 then [b0] else escapeByte b0). (0x20::nat) \<le> of_char x"
        using escapeByte_printable [OF True] by (auto simp: htmlSafeSet_def)
      with ih show ?thesis
        using Cons True by (auto simp del: appendString_body.simps
            simp add: appendString_body.simps(2) [of b0 rest])
    next
      case False
      obtain c w where d: "DecodeRuneInString s = (c, w)"
        by (cases "DecodeRuneInString s")
      have ne: "s \<noteq> []" using Cons by simp
      have w: "1 \<le> w" "w \<le> length s"
        using DecodeRuneInString_size [OF ne] d by simp_all
      have "length (drop w s) < length s"
        using w ne by simp
      then have ih: "\<forall>x\<in>set (appendString_body (drop w s)). (0x20::nat) \<le> of_char x"
        by (rule less)
      have r: "appendString_body s =
               (if c = RuneError \<and> w = 1 then
                  backslash # ''ufffd'' @ appendString_body (drop w s)
                else if c = 0x2028 \<or> c = 0x2029 then
                  backslash # ''u202'' @ [hex (c mod 16)] @ appendString_body (drop w s)
                else take w s @ appendString_body (drop w s))"
        using d False unfolding Cons by (simp del: drop_Suc_Cons take_Suc_Cons)
      have hx: "(0x20::nat) \<le> of_char (hex (c mod 16))"
        by (rule hex_printable) simp
      have b0: "\<not> byte s 0 < 0x80"
        using False Cons by (simp add: byte_def)
      have tk: "\<forall>x\<in>set (take w s). (0x20::nat) \<le> of_char x"
        if "\<not> (c = RuneError \<and> w = 1)"
      proof -
        have "\<forall>x\<in>set (take w s). (0x80::nat) \<le> of_char x"
          by (rule DecodeRuneInString_valid_bytes [OF d ne b0 that])
        then show ?thesis by fastforce
      qed
      show ?thesis
        unfolding r using ih hx tk by (auto simp: backslash_def)
    qed
  qed
qed

lemma escapeByte_quote_backslash:
  "b \<in> {quote, backslash} \<Longrightarrow>
   (of_char b :: nat) < 0x80 \<and> \<not> htmlSafeSet b \<and> escapeByte b = [backslash, b]"
  by (auto simp: htmlSafeSet_def escapeByte_def backslash_def quote_def)

lemma escapeByte_control_table:
  "list_all (\<lambda>n. \<not> htmlSafeSet (char_of n) \<and> escapeByte (char_of n) = controlEscape (char_of n))
     [0..<32::nat]"
  by code_simp

lemma escapeByte_control:
  assumes "(of_char c :: nat) < 0x20"
  shows "(of_char c :: nat) < 0x80 \<and> \<not> htmlSafeSet c \<and> escapeByte c = controlEscape c"
proof -
  have "(of_char c :: nat) \<in> set [0..<32]"
    using assms by simp
  then have "\<not> htmlSafeSet (char_of (of_char c :: nat))
             \<and> escapeByte (char_of (of_char c :: nat)) = controlEscape (char_of (of_char c :: nat))"
    using escapeByte_control_table unfolding list_all_iff by blast
  then show ?thesis
    using assms by simp
qed

section \<open>Evaluation of the regular expressions\<close>

lemmas regexp_eval =
  regexp_Compile_def parseStep_def escaped_def repetition_def regexp_MatchString_def
  matchesFullText_def DecodeRuneInString_def byte_def isWord_def backslash_def literals_def

section \<open>What \<^verbatim>\<open>MatchString\<close> finds\<close>




lemma Filter_compiled:
  "Compile pattern = Inr exp \<Longrightarrow>
   Filter Compile MatchString t pattern = ([], t |` {k. MatchString exp k})"
  by (simp add: Filter_def)

section \<open>The Template Context Builder\<close>

text \<open>
  The example of the README: \<^verbatim>\<open>MY_VAR\<close> was assigned while \<^verbatim>\<open>VARIABLE\<close> was \<^verbatim>\<open>Early\<close>, and
  \<^verbatim>\<open>VARIABLE\<close> is \<^verbatim>\<open>Later gator\<close> when the program runs.
\<close>

lemma readme_example:
  "contextOf
     (getEnvMap [''VARIABLE=Later gator'', ''MY_VAR=Early value: Early. Late Value: %VARIABLE%''])
     ''MY_VAR''
   = Some (ExtendedString ''Early value: Early. Late Value: Later gator'')"
  by (simp add: env_eval)

subsection \<open>Self-reference\<close>

text \<open>
  A dollar sign in front of a self-reference marker: \<^verbatim>\<open>A=$%A%\<close>. The marker is
  rewritten to \<^verbatim>\<open>${A}\<close>, and \<^verbatim>\<open>os.Expand\<close> reads \<^verbatim>\<open>$$\<close> as a reference to the
  variable \<^verbatim>\<open>$\<close>, which is not set, and copies \<^verbatim>\<open>{A}\<close>: the raw value of \<open>A\<close> is not
  substituted for the marker.
\<close>

theorem self_reference_dollar_counterexample:
  "wellFormedEnviron [assignment ''A'' ''$%A%''] \<and> isName ''A''
   \<and> ''$%A%'' = ''$'' @ marker ''A'' @ []
   \<and> contextOf (getEnvMap [assignment ''A'' ''$%A%'']) ''A'' = Some (ExtendedString ''{A}'')
   \<and> ''{A}'' \<noteq> lateExpand [assignment ''A'' ''$%A%''] ''$'' @ ''$%A%''
                  @ lateExpand [assignment ''A'' ''$%A%''] []"
  by (simp add: env_eval)

text \<open>
  Claim C1, amended. For every variable \<open>V\<close> of a well-formed environment whose raw
  value contains the marker \<^verbatim>\<open>%V%\<close> after a text \<open>pre\<close> that leaves no marker open at its
  end and, once its own markers are rewritten, leaves no reference of \<^verbatim>\<open>os.Expand\<close> open
  at its end, the context value of \<open>V\<close> is the expansion of \<open>pre\<close>, then the raw value of
  \<open>V\<close> itself, unchanged (its marker text is still there: it is not scanned again), then
  the expansion of the text after the marker. The text \<open>pre\<close> may hold dollar signs,
  references and markers of its own.
\<close>

theorem self_reference_single_pass:
  assumes "wellFormedEnviron environ" and "assignment V raw \<in> set environ"
    and "isName V" and "raw = pre @ marker V @ post"
    and "\<not> markerOpenAtEnd pre" and "\<not> leavesReferenceOpen (ReplaceAll pre)"
  shows "contextOf (getEnvMap environ) V
         = Some (ExtendedString (lateExpand environ pre @ raw @ lateExpand environ post))"
proof -
  have "lateExpand environ raw
        = lateExpand environ pre @ Getenv environ V @ lateExpand environ post"
    unfolding assms(4) by (rule lateExpand_marker [OF assms(5,6,3)])
  also have "Getenv environ V = raw"
    by (rule Getenv_own [OF assms(1,2,3)])
  finally have "lateExpand environ raw = lateExpand environ pre @ raw @ lateExpand environ post" .
  then show ?thesis
    using getEnvMap_entry [OF assms(1,2) isName_no_equals [OF assms(3)]] by simp
qed

theorem self_reference_single_pass_witness:
  "wellFormedEnviron [''HOME=/root'', assignment ''PATH'' ''$HOME/bin:%HOME%:%PATH%:/bin''] \<and>
   assignment ''PATH'' ''$HOME/bin:%HOME%:%PATH%:/bin''
     \<in> set [''HOME=/root'', assignment ''PATH'' ''$HOME/bin:%HOME%:%PATH%:/bin''] \<and>
   isName ''PATH'' \<and>
   ''$HOME/bin:%HOME%:%PATH%:/bin'' = ''$HOME/bin:%HOME%:'' @ marker ''PATH'' @ '':/bin'' \<and>
   \<not> markerOpenAtEnd ''$HOME/bin:%HOME%:'' \<and>
   \<not> leavesReferenceOpen (ReplaceAll ''$HOME/bin:%HOME%:'') \<and>
   contextOf (getEnvMap [''HOME=/root'', assignment ''PATH'' ''$HOME/bin:%HOME%:%PATH%:/bin''])
     ''PATH''
     = Some (ExtendedString ''/root/bin:/root:$HOME/bin:%HOME%:%PATH%:/bin:/bin'')"
proof -
  let ?env = "[''HOME=/root'', assignment ''PATH'' ''$HOME/bin:%HOME%:%PATH%:/bin'']"
  have h1: "wellFormedEnviron ?env" by (simp add: env_eval)
  have h2: "assignment ''PATH'' ''$HOME/bin:%HOME%:%PATH%:/bin'' \<in> set ?env" by simp
  have h3: "isName ''PATH''" by (simp add: env_eval)
  have h4: "''$HOME/bin:%HOME%:%PATH%:/bin'' = ''$HOME/bin:%HOME%:'' @ marker ''PATH'' @ '':/bin''"
    by (simp add: marker_def)
  have h5: "\<not> markerOpenAtEnd ''$HOME/bin:%HOME%:''" by (simp add: env_eval)
  have h6: "\<not> leavesReferenceOpen (ReplaceAll ''$HOME/bin:%HOME%:'')" by (simp add: env_eval)
  have l1: "lateExpand ?env ''$HOME/bin:%HOME%:'' = ''/root/bin:/root:''" by (simp add: env_eval)
  have l2: "lateExpand ?env '':/bin'' = '':/bin''" by (simp add: env_eval)
  show ?thesis
    using self_reference_single_pass [OF h1 h2 h3 h4 h5 h6] h1 h3 h5 h6
    by (simp add: l1 l2 marker_def)
qed

text \<open>
  The two conditions exclude what the search and the expansion do not resolve. A dollar
  sign that is not the last byte of \<open>pre\<close> and percent signs that are paired are allowed;
  a marker after an open marker is not a marker (in \<^verbatim>\<open>A=%X%A%\<close> the search pairs the
  first two percent signs), and a marker after an open reference is part of that
  reference.
\<close>

lemma self_reference_allowed_examples:
  "contextOf (getEnvMap [assignment ''A'' ''5 $ for %A%'']) ''A''
     = Some (ExtendedString ''5 $ for 5 $ for %A%'') \<and>
   contextOf (getEnvMap [''B=b'', assignment ''A'' ''%B%c%A%'']) ''A''
     = Some (ExtendedString ''bc%B%c%A%'') \<and>
   \<not> markerOpenAtEnd ''5 $ for '' \<and> \<not> leavesReferenceOpen (ReplaceAll ''5 $ for '') \<and>
   \<not> markerOpenAtEnd ''%B%c'' \<and> \<not> leavesReferenceOpen (ReplaceAll ''%B%c'')"
  by (simp add: env_eval)

lemma self_reference_excluded_examples:
  "markerOpenAtEnd ''%X'' \<and>
   contextOf (getEnvMap [assignment ''A'' ''%X%A%'']) ''A'' = Some (ExtendedString ''A%'') \<and>
   leavesReferenceOpen (ReplaceAll ''$'') \<and>
   leavesReferenceOpen (ReplaceAll ''${x'') \<and>
   contextOf (getEnvMap [assignment ''A'' ''${x%A%'']) ''A'' = Some (ExtendedString [])"
  by (simp add: env_eval)

lemma self_reference_plain_prefix:
  "CHR ''%'' \<notin> set pre \<Longrightarrow> CHR ''$'' \<notin> set pre \<Longrightarrow>
   \<not> markerOpenAtEnd pre \<and> \<not> leavesReferenceOpen (ReplaceAll pre)"
  by (simp add: no_percent_not_open no_dollar_not_open)

text \<open>
  The example of the specification: the raw value \<^verbatim>\<open>x%A%y\<close> of \<open>A\<close> does not give
  \<^verbatim>\<open>xy\<close>.
\<close>

theorem self_reference_xy_counterexample:
  "contextOf (getEnvMap [''A=x%A%y'']) ''A'' \<noteq> Some (ExtendedString ''xy'')"
  by (simp add: env_eval)

text \<open>
  Claim C2, amended. In every well-formed environment where \<open>A\<close> has the raw value
  \<^verbatim>\<open>x%A%y\<close>, the context maps \<open>A\<close> to \<^verbatim>\<open>xx%A%yy\<close>: the marker is replaced by the raw
  value, once.
\<close>

theorem self_reference_example:
  assumes "wellFormedEnviron environ" and "''A=x%A%y'' \<in> set environ"
  shows "contextOf (getEnvMap environ) ''A'' = Some (ExtendedString ''xx%A%yy'')"
proof -
  have mem: "assignment ''A'' ''x%A%y'' \<in> set environ"
    using assms(2) by (simp add: assignment_def)
  have n: "isName ''A''"
    by (simp add: isName_def isNameChar_def isWord_def)
  have raw: "''x%A%y'' = ''x'' @ marker ''A'' @ ''y''"
    by (simp add: marker_def)
  have own: "Getenv environ ''A'' = ''x%A%y''"
    by (rule Getenv_own [OF assms(1) mem n])
  have "lateExpand environ (''x'' @ marker ''A'' @ ''y'')
        = lateExpand environ ''x'' @ Getenv environ ''A'' @ lateExpand environ ''y''"
    by (rule lateExpand_marker) (simp_all add: n matchMarker_def)
  also have "lateExpand environ ''x'' = ''x''"
    by (simp add: lateExpand_def ExpandEnv_def matchMarker_def)
  also have "lateExpand environ ''y'' = ''y''"
    by (simp add: lateExpand_def ExpandEnv_def matchMarker_def)
  finally have "lateExpand environ ''x%A%y'' = ''xx%A%yy''"
    using own by (simp add: marker_def)
  then show ?thesis
    using getEnvMap_entry [OF assms(1) mem] by simp
qed

theorem self_reference_example_witness:
  "wellFormedEnviron [''A=x%A%y''] \<and> ''A=x%A%y'' \<in> set [''A=x%A%y''] \<and>
   contextOf (getEnvMap [''A=x%A%y'']) ''A'' = Some (ExtendedString ''xx%A%yy'')"
proof -
  have h1: "wellFormedEnviron [''A=x%A%y'']" by (simp add: env_eval)
  have h2: "''A=x%A%y'' \<in> set [''A=x%A%y'']" by simp
  show ?thesis
    using self_reference_example [OF h1 h2] h1 by simp
qed

subsection \<open>Values without a marker\<close>

text \<open>
  A value with no marker and a dollar sign: \<^verbatim>\<open>A=$B\<close> with \<^verbatim>\<open>B=1\<close>. \<^verbatim>\<open>os.ExpandEnv\<close>
  expands the reference, so the context value of \<open>A\<close> is not its raw value.
\<close>

theorem dollar_value_counterexample:
  "\<not> containsMarker ''$B'' \<and>
   contextOf (getEnvMap [''B=1'', ''A=$B'']) ''A'' = Some (ExtendedString ''1'') \<and>
   ''1'' \<noteq> ''$B''"
  by (simp add: env_eval containsMarker_def)

text \<open>
  Claim C3, amended. For every variable of a well-formed environment whose raw value
  contains no text matching the marker pattern and whose dollar signs are inert (each is
  the last byte or is followed by a byte that starts no reference), the context entry is
  exactly the raw value.
\<close>

theorem no_marker_value_literal:
  assumes "wellFormedEnviron environ" and "assignment name raw \<in> set environ"
    and "CHR ''='' \<notin> set name"
    and "\<not> containsMarker raw" and "inertDollars raw"
  shows "contextOf (getEnvMap environ) name = Some (ExtendedString raw)"
proof -
  have "ReplaceAll raw = raw"
    by (rule ReplaceAll_no_marker [OF assms(4)])
  then have "lateExpand environ raw = raw"
    using Expand_inert [OF assms(5)] by (simp add: lateExpand_def ExpandEnv_def)
  then show ?thesis
    using getEnvMap_entry [OF assms(1,2,3)] by simp
qed

theorem no_marker_value_literal_witness:
  "wellFormedEnviron [''HOME=/root'', assignment ''PRICE'' ''100% of 5 $ (or 5$)''] \<and>
   assignment ''PRICE'' ''100% of 5 $ (or 5$)''
     \<in> set [''HOME=/root'', assignment ''PRICE'' ''100% of 5 $ (or 5$)''] \<and>
   CHR ''='' \<notin> set ''PRICE'' \<and>
   \<not> containsMarker ''100% of 5 $ (or 5$)'' \<and>
   inertDollars ''100% of 5 $ (or 5$)'' \<and>
   contextOf (getEnvMap [''HOME=/root'', assignment ''PRICE'' ''100% of 5 $ (or 5$)'']) ''PRICE''
     = Some (ExtendedString ''100% of 5 $ (or 5$)'')"
proof -
  let ?env = "[''HOME=/root'', assignment ''PRICE'' ''100% of 5 $ (or 5$)'']"
  have h1: "wellFormedEnviron ?env" by (simp add: env_eval)
  have h2: "assignment ''PRICE'' ''100% of 5 $ (or 5$)'' \<in> set ?env" by simp
  have h3: "CHR ''='' \<notin> set ''PRICE''" by simp
  have h4: "\<not> containsMarker ''100% of 5 $ (or 5$)''"
    by (simp add: containsMarker_def matchMarker_def isNameChar_def isWord_def upt_rec)
  have h5: "inertDollars ''100% of 5 $ (or 5$)''"
    by (simp add: startsReference_def isShellSpecialVar_def isAlphaNum_def)
  from no_marker_value_literal [OF h1 h2 h3 h4 h5] h1 h2 h3 h4 h5
  show ?thesis by blast
qed

subsection \<open>References to names that are not set\<close>

text \<open>
  A dollar sign in front of a marker for a name that is not set: \<^verbatim>\<open>B=$%UNDEFINED%\<close>.
  The reference does not resolve to the empty text (which would leave \<^verbatim>\<open>$\<close>): the
  context value is \<^verbatim>\<open>{UNDEFINED}\<close>.
\<close>

theorem missing_reference_dollar_counterexample:
  "wellFormedEnviron [assignment ''B'' ''$%UNDEFINED%''] \<and> isName ''UNDEFINED''
   \<and> ''UNDEFINED'' \<notin> set (map envKey [assignment ''B'' ''$%UNDEFINED%''])
   \<and> ''$%UNDEFINED%'' = ''$'' @ marker ''UNDEFINED'' @ []
   \<and> contextOf (getEnvMap [assignment ''B'' ''$%UNDEFINED%'']) ''B''
       = Some (ExtendedString ''{UNDEFINED}'')
   \<and> ''{UNDEFINED}'' \<noteq> lateExpand [assignment ''B'' ''$%UNDEFINED%''] ''$'' @ []
                  @ lateExpand [assignment ''B'' ''$%UNDEFINED%''] []"
  by (simp add: env_eval)

text \<open>
  Claim C4, amended. For every variable \<open>B\<close> of a well-formed environment whose raw
  value contains a marker \<^verbatim>\<open>%NAME%\<close>, with \<open>NAME\<close> not set in the environment, after a text
  \<open>pre\<close> that leaves no marker open at its end and, once its own markers are rewritten,
  leaves no reference of \<^verbatim>\<open>os.Expand\<close> open at its end, \<^verbatim>\<open>getEnvMap\<close> returns a context
  (its result is not a panic) and the reference resolves to the empty text: the value of
  \<open>B\<close> is the expansion of \<open>pre\<close> followed by the expansion of the text after the marker.
  For \<^verbatim>\<open>B=%UNDEFINED%\<close> alone the value of \<open>B\<close> is empty.
\<close>

theorem missing_reference_empty:
  assumes "wellFormedEnviron environ" and "assignment B raw \<in> set environ"
    and "CHR ''='' \<notin> set B"
    and "raw = pre @ marker NAME @ post" and "isName NAME"
    and "NAME \<notin> set (map envKey environ)"
    and "\<not> markerOpenAtEnd pre" and "\<not> leavesReferenceOpen (ReplaceAll pre)"
  shows "\<not> isl (getEnvMap environ) \<and>
         contextOf (getEnvMap environ) B
           = Some (ExtendedString (lateExpand environ pre @ lateExpand environ post))"
proof -
  have "Getenv environ NAME = []"
    using assms(6) by (intro Getenv_missing) auto
  then have "lateExpand environ raw = lateExpand environ pre @ lateExpand environ post"
    unfolding assms(4) using lateExpand_marker [OF assms(7,8,5), of environ post] by simp
  then have "contextOf (getEnvMap environ) B
             = Some (ExtendedString (lateExpand environ pre @ lateExpand environ post))"
    using getEnvMap_entry [OF assms(1,2,3)] by simp
  then show ?thesis
    using getEnvMap_wellFormed [OF assms(1)] by simp
qed

theorem missing_reference_empty_witness:
  "wellFormedEnviron [''USER=me'', assignment ''B'' ''cost $5: %USER% %UNDEFINED%!''] \<and>
   assignment ''B'' ''cost $5: %USER% %UNDEFINED%!''
     \<in> set [''USER=me'', assignment ''B'' ''cost $5: %USER% %UNDEFINED%!''] \<and>
   CHR ''='' \<notin> set ''B'' \<and>
   ''cost $5: %USER% %UNDEFINED%!'' = ''cost $5: %USER% '' @ marker ''UNDEFINED'' @ ''!'' \<and>
   isName ''UNDEFINED'' \<and>
   ''UNDEFINED''
     \<notin> set (map envKey [''USER=me'', assignment ''B'' ''cost $5: %USER% %UNDEFINED%!'']) \<and>
   \<not> markerOpenAtEnd ''cost $5: %USER% '' \<and>
   \<not> leavesReferenceOpen (ReplaceAll ''cost $5: %USER% '') \<and>
   \<not> isl (getEnvMap [''USER=me'', assignment ''B'' ''cost $5: %USER% %UNDEFINED%!'']) \<and>
   contextOf (getEnvMap [''USER=me'', assignment ''B'' ''cost $5: %USER% %UNDEFINED%!'']) ''B''
     = Some (ExtendedString ''cost : me !'') \<and>
   \<not> isl (getEnvMap [assignment ''B'' ''%UNDEFINED%'']) \<and>
   contextOf (getEnvMap [assignment ''B'' ''%UNDEFINED%'']) ''B'' = Some (ExtendedString [])"
proof -
  let ?env = "[''USER=me'', assignment ''B'' ''cost $5: %USER% %UNDEFINED%!'']"
  have h1: "wellFormedEnviron ?env" by (simp add: env_eval)
  have h2: "assignment ''B'' ''cost $5: %USER% %UNDEFINED%!'' \<in> set ?env" by simp
  have h3: "CHR ''='' \<notin> set ''B''" by simp
  have h4: "''cost $5: %USER% %UNDEFINED%!'' = ''cost $5: %USER% '' @ marker ''UNDEFINED'' @ ''!''"
    by (simp add: marker_def)
  have h5: "isName ''UNDEFINED''" by (simp add: env_eval)
  have h6: "''UNDEFINED'' \<notin> set (map envKey ?env)" by (simp add: env_eval)
  have h7: "\<not> markerOpenAtEnd ''cost $5: %USER% ''" by (simp add: env_eval)
  have h8: "\<not> leavesReferenceOpen (ReplaceAll ''cost $5: %USER% '')" by (simp add: env_eval)
  have l1: "lateExpand ?env ''cost $5: %USER% '' = ''cost : me ''" by (simp add: env_eval)
  have l2: "lateExpand ?env ''!'' = ''!''" by (simp add: env_eval)
  have r: "\<not> isl (getEnvMap ?env) \<and>
           contextOf (getEnvMap ?env) ''B'' = Some (ExtendedString ''cost : me !'')"
    using missing_reference_empty [OF h1 h2 h3 h4 h5 h6 h7 h8] by (simp add: l1 l2)
  let ?one = "[assignment ''B'' ''%UNDEFINED%'']"
  have g1: "wellFormedEnviron ?one" by (simp add: env_eval)
  have g2: "assignment ''B'' ''%UNDEFINED%'' \<in> set ?one" by simp
  have g4: "''%UNDEFINED%'' = [] @ marker ''UNDEFINED'' @ []" by (simp add: marker_def)
  have g6: "''UNDEFINED'' \<notin> set (map envKey ?one)" by (simp add: env_eval)
  have g7: "\<not> markerOpenAtEnd []" by simp
  have g8: "\<not> leavesReferenceOpen (ReplaceAll [])" by simp
  have l: "lateExpand ?one [] = []" by (simp add: env_eval)
  have e: "\<not> isl (getEnvMap ?one) \<and>
           contextOf (getEnvMap ?one) ''B'' = Some (ExtendedString [])"
    using missing_reference_empty [OF g1 g2 h3 g4 h5 g6 g7 g8] by (simp add: l)
  from h1 h2 h3 h4 h5 h6 h7 h8 r e show ?thesis by blast
qed

subsection \<open>Order of the environment\<close>

text \<open>
  Claim C5. The context does not depend on the order in which the assignments of the
  environment are enumerated: two enumerations of the same assignments, in which no name
  is assigned twice, give the same result of \<^verbatim>\<open>getEnvMap\<close>, hence the same value for every
  key.
\<close>

theorem getEnvMap_order_independent:
  assumes perm: "mset environ1 = mset environ2" and d1: "distinct (map envKey environ1)"
  shows "getEnvMap environ1 = getEnvMap environ2"
proof -
  have eq: "set environ1 = set environ2"
    using perm by (rule mset_eq_setD)
  have "mset (map envKey environ1) = mset (map envKey environ2)"
    using perm by simp
  then have d2: "distinct (map envKey environ2)"
    using d1 by (metis mset_eq_imp_distinct_iff)
  have env: "Getenv environ1 = Getenv environ2"
    by (rule ext) (rule Getenv_same_set [OF d1 d2 eq])
  have entry: "entryOf environ1 = entryOf environ2"
    by (rule ext) (simp only: entryOf_def lateExpand_def ExpandEnv_def env)
  show ?thesis
  proof (cases "list_all (\<lambda>a. CHR ''='' \<in> set a) environ1")
    case True
    then have wf1: "wellFormedEnviron environ1"
      using d1 by (simp add: wellFormedEnviron_def)
    from True eq have "list_all (\<lambda>a. CHR ''='' \<in> set a) environ2"
      by (simp add: list_all_iff)
    then have wf2: "wellFormedEnviron environ2"
      using d2 by (simp add: wellFormedEnviron_def)
    have "map_of (map (entryOf environ1) environ1) = map_of (map (entryOf environ1) environ2)"
      by (subst map_of_inject_set) (simp_all only: fst_entryOf d1 d2 set_map eq)
    then show ?thesis
      using getEnvMap_wellFormed [OF wf1] getEnvMap_wellFormed [OF wf2] entry by simp
  next
    case False
    with eq have "\<not> list_all (\<lambda>a. CHR ''='' \<in> set a) environ2"
      by (simp add: list_all_iff)
    with False show ?thesis
      by (simp add: getEnvMap_def getEnvMap_loop_panic)
  qed
qed

theorem getEnvMap_order_independent_witness:
  "mset [''A=1'', ''B=%A%''] = mset [''B=%A%'', ''A=1''] \<and>
   distinct (map envKey [''A=1'', ''B=%A%'']) \<and>
   getEnvMap [''A=1'', ''B=%A%''] = getEnvMap [''B=%A%'', ''A=1''] \<and>
   contextOf (getEnvMap [''A=1'', ''B=%A%'']) ''B'' = Some (ExtendedString ''1'') \<and>
   contextOf (getEnvMap [''B=%A%'', ''A=1'']) ''B'' = Some (ExtendedString ''1'')"
proof -
  have h1: "mset [''A=1'', ''B=%A%''] = mset [''B=%A%'', ''A=1'']" by simp
  have h2: "distinct (map envKey [''A=1'', ''B=%A%''])" by (simp add: envKey_def)
  have v: "contextOf (getEnvMap [''A=1'', ''B=%A%'']) ''B'' = Some (ExtendedString ''1'')"
    by (simp add: env_eval)
  show ?thesis
    using getEnvMap_order_independent [OF h1 h2] h1 h2 v by simp
qed

section \<open>The Context Filter\<close>




text \<open>
  The pattern of the sample template is anchored at both ends, so that a match is the
  full text of the key: of the keys \<^verbatim>\<open>VAULT_SECRET_1\<close>, \<^verbatim>\<open>VAULT_SECRET_2\<close>,
  \<^verbatim>\<open>MY_VAULT_SECRET_1\<close> and \<^verbatim>\<open>OTHER\<close>, \<^verbatim>\<open>Filter\<close> keeps the first two.
\<close>

lemma Filter_vault_example:
  "Filter regexp_Compile regexp_MatchString
     [''VAULT_SECRET_1'' \<mapsto> ExtendedString ''a'', ''VAULT_SECRET_2'' \<mapsto> ExtendedString ''b'',
      ''MY_VAULT_SECRET_1'' \<mapsto> ExtendedString ''c'', ''OTHER'' \<mapsto> ExtendedString ''d'']
     vaultPattern
   = ([], [''VAULT_SECRET_1'' \<mapsto> ExtendedString ''a'', ''VAULT_SECRET_2'' \<mapsto> ExtendedString ''b''])"
proof -
  let ?t = "[''VAULT_SECRET_1'' \<mapsto> ExtendedString ''a'', ''VAULT_SECRET_2'' \<mapsto> ExtendedString ''b'',
      ''MY_VAULT_SECRET_1'' \<mapsto> ExtendedString ''c'', ''OTHER'' \<mapsto> ExtendedString ''d'']"
  have h: "regexp_Compile vaultPattern = Inr vaultRegex"
    by (simp add: regexp_eval vaultPattern_def vaultRegex_def)
  have m1: "regexp_MatchString vaultRegex ''VAULT_SECRET_1''"
    by (simp add: regexp_eval vaultRegex_def)
  have m2: "regexp_MatchString vaultRegex ''VAULT_SECRET_2''"
    by (simp add: regexp_eval vaultRegex_def)
  have m3: "\<not> regexp_MatchString vaultRegex ''MY_VAULT_SECRET_1''"
    by (simp add: regexp_eval vaultRegex_def)
  have m4: "\<not> regexp_MatchString vaultRegex ''OTHER''"
    by (simp add: regexp_eval vaultRegex_def)
  have "?t |` {k. regexp_MatchString vaultRegex k}
        = [''VAULT_SECRET_1'' \<mapsto> ExtendedString ''a'', ''VAULT_SECRET_2'' \<mapsto> ExtendedString ''b'']"
    using m1 m2 m3 m4 by (auto simp: restrict_map_def fun_eq_iff)
  then show ?thesis
    using Filter_compiled [of regexp_Compile vaultPattern vaultRegex regexp_MatchString ?t, OF h]
    by simp
qed

text \<open>
  Claim C7. For every context and every pattern that fails to compile, \<^verbatim>\<open>Filter\<close>
  reports the error on the standard error stream (the pattern and the error) and returns
  an empty context; it returns normally.
\<close>

theorem Filter_invalid_pattern:
  assumes "Compile pattern = Inl err"
  shows "Filter Compile MatchString t pattern =
           ([(''Invalid pattern: %s - error: %v'', [StringArg pattern, ErrorArg err])],
            Map.empty)"
  using assms by (simp add: Filter_def)

theorem Filter_invalid_pattern_witness:
  "regexp_Compile ''VAULT_(SECRET'' = Inl (Error ''missing closing )'') \<and>
   Filter regexp_Compile regexp_MatchString
     [''VAULT_SECRET_1'' \<mapsto> ExtendedString ''a'', ''OTHER'' \<mapsto> ExtendedString ''b'']
     ''VAULT_(SECRET'' =
     ([(''Invalid pattern: %s - error: %v'',
        [StringArg ''VAULT_(SECRET'', ErrorArg (Error ''missing closing )'')])],
      Map.empty)"
proof -
  have h: "regexp_Compile ''VAULT_(SECRET'' = Inl (Error ''missing closing )'')"
    by (simp add: regexp_eval)
  show ?thesis
    using Filter_invalid_pattern [of regexp_Compile "''VAULT_(SECRET''", OF h] h by simp
qed

section \<open>The operations of the Extended String Value\<close>

text \<open>
  Claim C8. For every text \<open>s\<close> and every non-empty separator that does not occur in
  \<open>s\<close>, \<^verbatim>\<open>Split\<close> returns the sequence whose only element is \<open>s\<close>.
\<close>

theorem Split_without_separator:
  assumes "sep \<noteq> []" and "\<not> occursIn sep s"
  shows "Split (ExtendedString s) sep = [ExtendedString s]"
proof -
  have "Index s sep = None"
    using assms(2) by (simp add: Index_None_iff)
  then show ?thesis
    using assms(1) by (simp add: Split_def strings_Split_def)
qed

theorem Split_without_separator_witness:
  "'','' \<noteq> [] \<and> \<not> occursIn '','' ''a.b;c'' \<and>
   Split (ExtendedString ''a.b;c'') '','' = [ExtendedString ''a.b;c'']"
proof -
  have h1: "'','' \<noteq> []" by simp
  have "Index ''a.b;c'' '','' = None" by simp
  then have h2: "\<not> occursIn '','' ''a.b;c''"
    using Index_None_iff [of "''a.b;c''" "'',''"] by blast
  show ?thesis
    using Split_without_separator [OF h1 h2] h2 by simp
qed

text \<open>
  Claim C9. For every value whose text names a path that \<^verbatim>\<open>os.ReadFile\<close> cannot read
  (it returns an error, whatever bytes it read), \<^verbatim>\<open>LoadFile\<close> writes one line to the
  standard error stream and returns the empty value; it returns normally, so the
  rendering that called it goes on.
\<close>

theorem LoadFile_unreadable:
  assumes "ReadFile (string_of es) = (fileData, Some err)"
  shows "LoadFile ReadFile es =
           ([(''Error reading file %s: %v'', [StringArg (string_of es), BytesArg fileData])],
            ExtendedString [])"
  using assms by (simp add: LoadFile_def)

theorem LoadFile_unreadable_witness:
  "exampleFiles (string_of (ExtendedString ''missing.txt''))
     = ([], Some (Error ''open: no such file or directory'')) \<and>
   LoadFile exampleFiles (ExtendedString ''missing.txt'') =
     ([(''Error reading file %s: %v'', [StringArg ''missing.txt'', BytesArg []])],
      ExtendedString []) \<and>
   LoadFile exampleFiles (ExtendedString ''a.txt'') = ([], ExtendedString ''A'')"
proof -
  have h: "exampleFiles (string_of (ExtendedString ''missing.txt''))
           = ([], Some (Error ''open: no such file or directory''))"
    by (simp add: exampleFiles_def)
  have ok: "LoadFile exampleFiles (ExtendedString ''a.txt'') = ([], ExtendedString ''A'')"
    by (simp add: LoadFile_def exampleFiles_def)
  show ?thesis
    using LoadFile_unreadable [of exampleFiles "ExtendedString ''missing.txt''", OF h] h ok by simp
qed

text \<open>
  Claim C10. For every text with an occurrence of \<^verbatim>\<open>&\<close>, \<^verbatim>\<open><\<close> or \<^verbatim>\<open>>\<close>, \<^verbatim>\<open>ToJSON\<close>
  encodes that occurrence as \<^verbatim>\<open>\u0026\<close>, \<^verbatim>\<open>\u003c\<close> or \<^verbatim>\<open>\u003e\<close>, between the encodings of
  the text before it and of the text after it, and none of the three characters is ever
  in the output of \<^verbatim>\<open>ToJSON\<close>. This comes in addition to the escapes JSON requires: an
  occurrence of a double quote or of a backslash is written after a backslash, an
  occurrence of a control character (a byte below \<open>0x20\<close>) is written as its escape
  sequence (\<^verbatim>\<open>\b\<close>, \<^verbatim>\<open>\t\<close>, \<^verbatim>\<open>\n\<close>, \<^verbatim>\<open>\f\<close>, \<^verbatim>\<open>\r\<close>, or \<^verbatim>\<open>\u00XX\<close>), and no control
  character is ever in the output.
\<close>

theorem ToJSON_escapes_html:
  assumes "c \<in> {CHR ''&'', CHR ''<'', CHR ''>''}" and "b \<in> {quote, backslash}"
    and "(of_char ctl :: nat) < 0x20"
  shows "ToJSON (ExtendedString (s1 @ [c] @ s2)) =
           ([], ExtendedString (quote # appendString_body s1 @ htmlEscape c
                  @ appendString_body s2 @ [quote]))
         \<and> c \<notin> set (string_of (snd (ToJSON es)))
         \<and> ToJSON (ExtendedString (s1 @ [b] @ s2)) =
           ([], ExtendedString (quote # appendString_body s1 @ [backslash, b]
                  @ appendString_body s2 @ [quote]))
         \<and> ToJSON (ExtendedString (s1 @ [ctl] @ s2)) =
           ([], ExtendedString (quote # appendString_body s1 @ controlEscape ctl
                  @ appendString_body s2 @ [quote]))
         \<and> (\<forall>x\<in>set (string_of (snd (ToJSON es))). (0x20::nat) \<le> of_char x)"
proof -
  have ascii: "(of_char c :: nat) < 0x80"
    using assms(1) by (rule html_chars_ascii)
  have "c \<notin> set (appendString_body (string_of es))"
    using appendString_body_not_html [of "string_of es"] assms(1) by blast
  moreover have "c \<noteq> quote"
    using assms(1) by (auto simp: quote_def)
  ultimately have none: "c \<notin> set (string_of (snd (ToJSON es)))"
    by (simp add: ToJSON_def Marshal_def)
  have html: "ToJSON (ExtendedString (s1 @ [c] @ s2)) =
           ([], ExtendedString (quote # appendString_body s1 @ htmlEscape c
                  @ appendString_body s2 @ [quote]))"
    using ToJSON_ascii_byte [OF ascii, of s1 s2] escapeByte_html [OF assms(1)] by simp
  have mandated: "ToJSON (ExtendedString (s1 @ [b] @ s2)) =
           ([], ExtendedString (quote # appendString_body s1 @ [backslash, b]
                  @ appendString_body s2 @ [quote]))"
    using ToJSON_ascii_byte [of b s1 s2] escapeByte_quote_backslash [OF assms(2)] by simp
  have control: "ToJSON (ExtendedString (s1 @ [ctl] @ s2)) =
           ([], ExtendedString (quote # appendString_body s1 @ controlEscape ctl
                  @ appendString_body s2 @ [quote]))"
    using ToJSON_ascii_byte [of ctl s1 s2] escapeByte_control [OF assms(3)] by simp
  have "(0x20::nat) \<le> of_char quote"
    by (simp add: quote_def)
  then have printable: "\<forall>x\<in>set (string_of (snd (ToJSON es))). (0x20::nat) \<le> of_char x"
    using appendString_body_printable [of "string_of es"]
    by (simp add: ToJSON_def Marshal_def)
  from html none mandated control printable show ?thesis by blast
qed

theorem ToJSON_escapes_html_witness:
  "CHR ''<'' \<in> {CHR ''&'', CHR ''<'', CHR ''>''} \<and> quote \<in> {quote, backslash} \<and>
   (of_char (CHR 0x01) :: nat) < 0x20 \<and>
   ToJSON (ExtendedString (''a'' @ [CHR ''<''] @ CHR 0x09 # ''b>&'' @ [CHR 0x1F]))
     = ([], ExtendedString (quote # ''a'' @ backslash # ''u003c'' @ backslash # ''tb''
                              @ backslash # ''u003e'' @ backslash # ''u0026''
                              @ backslash # ''u001f'' @ [quote])) \<and>
   CHR ''<'' \<notin> set (string_of (snd (ToJSON (ExtendedString ''a<b>&c'')))) \<and>
   ToJSON (ExtendedString (''a'' @ [quote] @ CHR 0x09 # ''b>&'' @ [CHR 0x1F]))
     = ([], ExtendedString (quote # ''a'' @ [backslash, quote] @ backslash # ''tb''
                              @ backslash # ''u003e'' @ backslash # ''u0026''
                              @ backslash # ''u001f'' @ [quote])) \<and>
   ToJSON (ExtendedString (''a'' @ [CHR 0x01] @ CHR 0x09 # ''b>&'' @ [CHR 0x1F]))
     = ([], ExtendedString (quote # ''a'' @ backslash # ''u0001'' @ backslash # ''tb''
                              @ backslash # ''u003e'' @ backslash # ''u0026''
                              @ backslash # ''u001f'' @ [quote]))"
proof -
  have h: "CHR ''<'' \<in> {CHR ''&'', CHR ''<'', CHR ''>''}" by simp
  have h': "quote \<in> {quote, backslash}" by simp
  have h'': "(of_char (CHR 0x01) :: nat) < 0x20" by simp
  have b1: "appendString_body ''a'' = ''a''"
    by (simp add: htmlSafeSet_def quote_def backslash_def)
  have b2: "appendString_body (CHR 0x09 # ''b>&'' @ [CHR 0x1F])
              = backslash # ''tb'' @ backslash # ''u003e'' @ backslash # ''u0026''
                @ backslash # ''u001f''"
    by (simp add: htmlSafeSet_def escapeByte_def hex_def quote_def backslash_def)
  note inst = ToJSON_escapes_html [OF h h' h'', of "''a''" "CHR 0x09 # ''b>&'' @ [CHR 0x1F]"
      "ExtendedString ''a<b>&c''"]
  from inst have r: "ToJSON (ExtendedString (''a'' @ [CHR ''<''] @ CHR 0x09 # ''b>&'' @ [CHR 0x1F]))
     = ([], ExtendedString (quote # ''a'' @ backslash # ''u003c'' @ backslash # ''tb''
                              @ backslash # ''u003e'' @ backslash # ''u0026''
                              @ backslash # ''u001f'' @ [quote]))"
    unfolding b1 b2 htmlEscape_def by simp
  from inst have n: "CHR ''<'' \<notin> set (string_of (snd (ToJSON (ExtendedString ''a<b>&c''))))"
    by blast
  from inst have q: "ToJSON (ExtendedString (''a'' @ [quote] @ CHR 0x09 # ''b>&'' @ [CHR 0x1F]))
     = ([], ExtendedString (quote # ''a'' @ [backslash, quote] @ backslash # ''tb''
                              @ backslash # ''u003e'' @ backslash # ''u0026''
                              @ backslash # ''u001f'' @ [quote]))"
    unfolding b1 b2 by simp
  from inst have t: "ToJSON (ExtendedString (''a'' @ [CHR 0x01] @ CHR 0x09 # ''b>&'' @ [CHR 0x1F]))
     = ([], ExtendedString (quote # ''a'' @ backslash # ''u0001'' @ backslash # ''tb''
                              @ backslash # ''u003e'' @ backslash # ''u0026''
                              @ backslash # ''u001f'' @ [quote]))"
    unfolding b1 b2 controlEscape_def by simp
  from h h' h'' r n q t show ?thesis by blast
qed

end
